theory Spec2Isabelle
  imports Main "HOL-Library.Sublist"
begin

section \<open>Python values held by the session\<close>

text \<open>
  \<^verbatim>\<open>run_reconciliation\<close> of \<^verbatim>\<open>src/app.py\<close> works on what \<^verbatim>\<open>json.loads\<close> returned: the
  challan and every sticker are duck-typed JSON values. A JSON object is a Python dict,
  written here as an association list read with \<open>map_of\<close> (the first binding of a key
  is the dict's entry, and its position is the key's insertion position); a JSON integer
  is an unbounded Python \<^verbatim>\<open>int\<close>. Text is ASCII: a character is a \<open>char\<close> whose code
  is below 128. JSON numbers with a fraction or an exponent (Python floats) are not
  values of this type.
\<close>

datatype json =
    JNull
  | JBool bool
  | JInt int
  | JStr string
  | JArr "json list"
  | JObj "(string \<times> json) list"

text \<open>The exceptions the function can raise.\<close>

datatype py_error = TypeError | AttributeError | KeyError

subsection \<open>\<^verbatim>\<open>str.strip\<close>, \<^verbatim>\<open>str.upper\<close>, \<^verbatim>\<open>str.startswith\<close>\<close>

text \<open>
  Python's ASCII whitespace: TAB, LF, VT, FF, CR, the four separators FS, GS, RS, US,
  and the space.
\<close>

definition is_space :: "char \<Rightarrow> bool" where
  "is_space c = (let n = (of_char c :: nat) in (9 \<le> n \<and> n \<le> 13) \<or> (28 \<le> n \<and> n \<le> 32))"

definition strip :: "string \<Rightarrow> string" where
  "strip s = rev (dropWhile is_space (rev (dropWhile is_space s)))"

definition upper_char :: "char \<Rightarrow> char" where
  "upper_char c = (let n = (of_char c :: nat) in
     if 97 \<le> n \<and> n \<le> 122 then char_of (n - 32) else c)"

definition upper :: "string \<Rightarrow> string" where
  "upper s = map upper_char s"

definition startswith :: "string \<Rightarrow> string \<Rightarrow> bool" where
  "startswith s p = (take (length p) s = p)"

subsection \<open>\<^verbatim>\<open>str(x)\<close>\<close>

function digits :: "nat \<Rightarrow> string" where
  "digits n = (if n < 10 then [char_of (48 + n)] else digits (n div 10) @ [char_of (48 + n mod 10)])"
  by pat_completeness auto
termination
  by (relation "measure id") auto

definition str_int :: "int \<Rightarrow> string" where
  "str_int i = (if i < 0 then CHR ''-'' # digits (nat (- i)) else digits (nat i))"

definition hex_digit :: "nat \<Rightarrow> char" where
  "hex_digit n = (if n < 10 then char_of (48 + n) else char_of (87 + n))"

text \<open>
  \<^verbatim>\<open>repr\<close> of a string: the quote is the double quote when the text holds a single quote
  and no double quote, the single quote otherwise; the backslash, the chosen quote,
  TAB, LF and CR are escaped with a backslash, every other control character as
  \<^verbatim>\<open>\xhh\<close>.
\<close>

definition repr_char :: "char \<Rightarrow> char \<Rightarrow> string" where
  "repr_char q c = (let n = (of_char c :: nat) in
     if c = q \<or> n = 92 then [char_of (92::nat), c]
     else if n = 9 then [char_of (92::nat), CHR ''t'']
     else if n = 10 then [char_of (92::nat), CHR ''n'']
     else if n = 13 then [char_of (92::nat), CHR ''r'']
     else if n < 32 \<or> n = 127 then [char_of (92::nat), CHR ''x'', hex_digit (n div 16), hex_digit (n mod 16)]
     else [c])"

definition repr_str :: "string \<Rightarrow> string" where
  "repr_str s = (let q = (if char_of (39::nat) \<in> set s \<and> char_of (34::nat) \<notin> set s
                          then char_of (34::nat) else char_of (39::nat))
     in [q] @ concat (map (repr_char q) s) @ [q])"

fun join :: "string \<Rightarrow> string list \<Rightarrow> string" where
  "join sep [] = []"
| "join sep [x] = x"
| "join sep (x # y # ys) = x @ sep @ join sep (y # ys)"

primrec repr :: "json \<Rightarrow> string" where
  "repr JNull = ''None''"
| "repr (JBool b) = (if b then ''True'' else ''False'')"
| "repr (JInt i) = str_int i"
| "repr (JStr s) = repr_str s"
| "repr (JArr xs) = ''['' @ join '', '' (map repr xs) @ '']''"
| "repr (JObj kvs) =
     ''{'' @ join '', '' (map (\<lambda>kv. repr_str (fst kv) @ '': '' @ snd kv) (map (map_prod id repr) kvs)) @ ''}''"

definition py_str :: "json \<Rightarrow> string" where
  "py_str v = (case v of JStr s \<Rightarrow> s | _ \<Rightarrow> repr v)"

subsection \<open>Truth value, \<^verbatim>\<open>in\<close>, \<^verbatim>\<open>.get\<close>, iteration, \<^verbatim>\<open>+\<close>\<close>

definition truthy :: "json \<Rightarrow> bool" where
  "truthy v = (case v of
       JNull \<Rightarrow> False
     | JBool b \<Rightarrow> b
     | JInt i \<Rightarrow> i \<noteq> 0
     | JStr s \<Rightarrow> s \<noteq> []
     | JArr xs \<Rightarrow> xs \<noteq> []
     | JObj d \<Rightarrow> d \<noteq> [])"

text \<open>
  \<^verbatim>\<open>k in v\<close> for a string \<open>k\<close>: a key of a dict, an element of a list, a substring of
  a string; \<^verbatim>\<open>None\<close>, booleans and integers are not iterable.
\<close>

definition py_in :: "string \<Rightarrow> json \<Rightarrow> py_error + bool" where
  "py_in k v = (case v of
       JObj d \<Rightarrow> Inr (k \<in> set (map fst d))
     | JArr xs \<Rightarrow> Inr (JStr k \<in> set xs)
     | JStr s \<Rightarrow> Inr (sublist k s)
     | _ \<Rightarrow> Inl TypeError)"

definition dict_get :: "(string \<times> json) list \<Rightarrow> string \<Rightarrow> json \<Rightarrow> json" where
  "dict_get d k dflt = (case map_of d k of None \<Rightarrow> dflt | Some v \<Rightarrow> v)"

text \<open>\<^verbatim>\<open>v.get(k, dflt)\<close>: only a dict has the method.\<close>

definition py_get :: "json \<Rightarrow> string \<Rightarrow> json \<Rightarrow> py_error + json" where
  "py_get v k dflt = (case v of JObj d \<Rightarrow> Inr (dict_get d k dflt) | _ \<Rightarrow> Inl AttributeError)"

text \<open>
  The values a \<^verbatim>\<open>for\<close> loop over \<open>v\<close> visits: the elements of a list, the keys of a
  dict, the characters of a string.
\<close>

definition py_iter :: "json \<Rightarrow> py_error + json list" where
  "py_iter v = (case v of
       JArr xs \<Rightarrow> Inr xs
     | JObj d \<Rightarrow> Inr (map (\<lambda>kv. JStr (fst kv)) d)
     | JStr s \<Rightarrow> Inr (map (\<lambda>c. JStr [c]) s)
     | _ \<Rightarrow> Inl TypeError)"

text \<open>
  \<^verbatim>\<open>a + v\<close> for an integer \<open>a\<close>: \<^verbatim>\<open>bool\<close> is a subclass of \<^verbatim>\<open>int\<close>, and \<^verbatim>\<open>None\<close>, a string, a
  list and a dict cannot be added to an \<^verbatim>\<open>int\<close>. (A float can, but is not a value here.)
\<close>

definition py_add :: "int \<Rightarrow> json \<Rightarrow> py_error + int" where
  "py_add a v = (case v of
       JInt n \<Rightarrow> Inr (a + n)
     | JBool b \<Rightarrow> Inr (a + (if b then 1 else 0))
     | _ \<Rightarrow> Inl TypeError)"

section \<open>The expected index\<close>

text \<open>
  \<^verbatim>\<open>expected_items\<close> is a dict from a pair (description, size) to a counter dict
  \<^verbatim>\<open>{'expected': .., 'received': ..}\<close>. A Python dict iterates in insertion order, so
  it is an association list in insertion order.
\<close>

record counter =
  expected :: int
  received :: int

type_synonym key = "string \<times> string"

type_synonym index = "(key \<times> counter) list"

text \<open>\<^verbatim>\<open>expected_items[k][..] = f (expected_items[k][..])\<close>: the entry of \<open>k\<close> in place.\<close>

fun modify :: "key \<Rightarrow> (counter \<Rightarrow> counter) \<Rightarrow> index \<Rightarrow> index" where
  "modify k f [] = []"
| "modify k f (kc # rest) =
     (if fst kc = k then (fst kc, f (snd kc)) # rest else kc # modify k f rest)"

text \<open>Lines 124 to 127: the key of a challan line.\<close>

definition line_key :: "json \<Rightarrow> py_error + key" where
  "line_key line =
     (case py_get line ''material_description'' (JStr []) of
        Inl e \<Rightarrow> Inl e
      | Inr d \<Rightarrow>
          (case py_get line ''size'' (JStr []) of
             Inl e \<Rightarrow> Inl e
           | Inr s \<Rightarrow> Inr (strip (py_str d), upper (strip (py_str s)))))"

text \<open>Lines 124 to 130: the body of the loop over the challan's lines.\<close>

definition build_step :: "index \<Rightarrow> json \<Rightarrow> py_error + index" where
  "build_step idx line =
     (case line_key line of
        Inl e \<Rightarrow> Inl e
      | Inr k \<Rightarrow>
          (let idx' = (if k \<in> set (map fst idx) then idx
                       else idx @ [(k, \<lparr>expected = 0, received = 0\<rparr>)])
           in case map_of idx' k of
                None \<Rightarrow> Inl KeyError
              | Some c \<Rightarrow>
                  (case py_get line ''qty_units_expected'' (JInt 0) of
                     Inl e \<Rightarrow> Inl e
                   | Inr q \<Rightarrow>
                       (case py_add (expected c) q of
                          Inl e \<Rightarrow> Inl e
                        | Inr n \<Rightarrow> Inr (modify k (\<lambda>c. c\<lparr>expected := n\<rparr>) idx')))))"

fun build_index :: "index \<Rightarrow> json list \<Rightarrow> py_error + index" where
  "build_index idx [] = Inr idx"
| "build_index idx (line # rest) =
     (case build_step idx line of Inl e \<Rightarrow> Inl e | Inr idx' \<Rightarrow> build_index idx' rest)"

section \<open>Matching the stickers\<close>

text \<open>
  Lines 139 to 146: the loop over \<^verbatim>\<open>expected_items.keys()\<close> with its \<^verbatim>\<open>break\<close>. The
  boolean returned is \<^verbatim>\<open>match_found\<close>.
\<close>

fun scan_keys :: "string \<Rightarrow> string \<Rightarrow> key list \<Rightarrow> index \<Rightarrow> py_error + index \<times> bool" where
  "scan_keys sticker_style sticker_size [] idx = Inr (idx, False)"
| "scan_keys sticker_style sticker_size (challan_key # rest) idx =
     (if startswith (fst challan_key) sticker_style \<and> snd challan_key = sticker_size
      then (case map_of idx challan_key of
              None \<Rightarrow> Inl KeyError
            | Some c \<Rightarrow> Inr (modify challan_key (\<lambda>c. c\<lparr>received := received c + 1\<rparr>) idx, True))
      else scan_keys sticker_style sticker_size rest idx)"

text \<open>Lines 135 and 136: the style and the size a sticker is matched with.\<close>

definition sticker_key :: "json \<Rightarrow> py_error + key" where
  "sticker_key sticker =
     (case py_get sticker ''style'' (JStr []) of
        Inl e \<Rightarrow> Inl e
      | Inr a \<Rightarrow>
          (case py_get sticker ''code_size'' (JStr []) of
             Inl e \<Rightarrow> Inl e
           | Inr b \<Rightarrow> Inr (strip (py_str a), upper (strip (py_str b)))))"

text \<open>Lines 135 to 149: the body of the loop over the stickers.\<close>

definition match_step :: "index \<times> json list \<Rightarrow> json \<Rightarrow> py_error + index \<times> json list" where
  "match_step st sticker =
     (case sticker_key sticker of
        Inl e \<Rightarrow> Inl e
      | Inr k \<Rightarrow>
          (case scan_keys (fst k) (snd k) (map fst (fst st)) (fst st) of
             Inl e \<Rightarrow> Inl e
           | Inr r \<Rightarrow>
               Inr (fst r, if snd r then snd st else snd st @ [sticker])))"

fun match_stickers :: "index \<times> json list \<Rightarrow> json list \<Rightarrow> py_error + index \<times> json list" where
  "match_stickers st [] = Inr st"
| "match_stickers st (sticker # rest) =
     (case match_step st sticker of Inl e \<Rightarrow> Inl e | Inr st' \<Rightarrow> match_stickers st' rest)"

section \<open>The report\<close>

text \<open>
  The status strings of the source carry a pictograph before the word; the word is what
  is kept here.
\<close>

datatype status = MATCH | SHORT | OVER

record row =
  Challan_Description :: string
  Size :: json
  Expected :: int
  Received :: int
  Variance :: int
  Status :: status

text \<open>Lines 153 to 162.\<close>

definition key_row :: "key \<times> counter \<Rightarrow> row" where
  "key_row kd =
     (let variance = received (snd kd) - expected (snd kd);
          status = (if variance = 0 then MATCH else (if variance < 0 then SHORT else OVER))
      in \<lparr>Challan_Description = fst (fst kd), Size = JStr (snd (fst kd)),
          Expected = expected (snd kd), Received = received (snd kd),
          Variance = variance, Status = status\<rparr>)"

text \<open>Lines 165 to 172.\<close>

definition unmatched_row :: "json \<Rightarrow> py_error + row" where
  "unmatched_row sticker =
     (case py_get sticker ''style'' (JStr []) of
        Inl e \<Rightarrow> Inl e
      | Inr a \<Rightarrow>
          (case py_get sticker ''code_size'' (JStr []) of
             Inl e \<Rightarrow> Inl e
           | Inr b \<Rightarrow>
               Inr \<lparr>Challan_Description = ''(UNMATCHED SCAN) '' @ py_str a, Size = b,
                    Expected = 0, Received = 1, Variance = 1, Status = OVER\<rparr>))"

fun unmatched_rows :: "json list \<Rightarrow> py_error + row list" where
  "unmatched_rows [] = Inr []"
| "unmatched_rows (sticker # rest) =
     (case unmatched_row sticker of
        Inl e \<Rightarrow> Inl e
      | Inr r \<Rightarrow> (case unmatched_rows rest of Inl e \<Rightarrow> Inl e | Inr rs \<Rightarrow> Inr (r # rs)))"

section \<open>\<^verbatim>\<open>run_reconciliation\<close>\<close>

text \<open>
  The function reads \<^verbatim>\<open>st.session_state\<close>. It returns \<^verbatim>\<open>None\<close> after a warning when
  there is no challan to reconcile (\<open>NoChallan\<close>), and the rows of the data frame
  otherwise.
\<close>

record session =
  challan_data :: json
  scanned_stickers :: "json list"
  reconciliation_report :: "row list option"

datatype outcome = NoChallan | Report "row list"

text \<open>Line 123: the values the loop over \<^verbatim>\<open>challan_data.get('lines', [])\<close> visits.\<close>

definition challan_lines :: "json \<Rightarrow> py_error + json list" where
  "challan_lines challan =
     (case py_get challan ''lines'' (JArr []) of Inl e \<Rightarrow> Inl e | Inr ls \<Rightarrow> py_iter ls)"

definition run_reconciliation :: "session \<Rightarrow> py_error + outcome" where
  "run_reconciliation st =
     (if \<not> truthy (challan_data st) then Inr NoChallan
      else case py_in ''lines'' (challan_data st) of
          Inl e \<Rightarrow> Inl e
        | Inr False \<Rightarrow> Inr NoChallan
        | Inr True \<Rightarrow>
     (case challan_lines (challan_data st) of
          Inl e \<Rightarrow> Inl e
        | Inr lines \<Rightarrow>
     (case build_index [] lines of
          Inl e \<Rightarrow> Inl e
        | Inr expected_items \<Rightarrow>
     (case match_stickers (expected_items, []) (scanned_stickers st) of
          Inl e \<Rightarrow> Inl e
        | Inr m \<Rightarrow>
     (case unmatched_rows (snd m) of
          Inl e \<Rightarrow> Inl e
        | Inr rs \<Rightarrow> Inr (Report (map key_row (fst m) @ rs)))))))"

section \<open>The same function on a store\<close>

text \<open>
  Lists and dicts are mutable Python objects, held by reference: what a run changes,
  and what its report shares with its inputs, is a matter of which object a statement
  writes to. For that the function is written once more over an explicit store. A value
  is a scalar (immutable: \<^verbatim>\<open>None\<close>, a boolean, an integer, a string) or the address of an
  object; an object is a list, a dict with string keys, or the dict \<^verbatim>\<open>expected_items\<close>,
  whose keys are pairs of strings. The store is the list of all objects, an address is a
  position in it, and a new object is appended at the end.
\<close>

type_synonym addr = nat

datatype pval = PNone | PBool bool | PInt int | PStr string | PRef addr

datatype pobj =
    PList "pval list"
  | PDict "(string \<times> pval) list"
  | PIndex "(key \<times> pval) list"

type_synonym heap = "pobj list"

text \<open>Reading an address; \<open>None\<close> for an address that holds no object.\<close>

definition obj_at :: "heap \<Rightarrow> addr \<Rightarrow> pobj option" where
  "obj_at h a = (if a < length h then Some (h ! a) else None)"

definition alloc :: "pobj \<Rightarrow> heap \<Rightarrow> addr \<times> heap" where
  "alloc ob h = (length h, h @ [ob])"

text \<open>
  The JSON value a stored value stands for, read to depth \<open>n\<close>. What \<^verbatim>\<open>json.loads\<close>
  returned has no cycle, so the number of objects of the store is depth enough
  (\<open>jview\<close>). The functions \<^verbatim>\<open>str\<close>, \<^verbatim>\<open>strip\<close>, \<^verbatim>\<open>upper\<close>, truth value and \<^verbatim>\<open>in\<close> only read
  their argument, and are the ones above, applied to this value.
\<close>

fun view :: "nat \<Rightarrow> heap \<Rightarrow> pval \<Rightarrow> json" where
  "view n h PNone = JNull"
| "view n h (PBool b) = JBool b"
| "view n h (PInt i) = JInt i"
| "view n h (PStr s) = JStr s"
| "view 0 h (PRef a) = JNull"
| "view (Suc n) h (PRef a) =
     (case obj_at h a of
        Some (PList vs) \<Rightarrow> JArr (map (view n h) vs)
      | Some (PDict f) \<Rightarrow> JObj (map (\<lambda>kv. (fst kv, view n h (snd kv))) f)
      | _ \<Rightarrow> JNull)"

definition jview :: "heap \<Rightarrow> pval \<Rightarrow> json" where
  "jview h v = view (length h) h v"

text \<open>\<^verbatim>\<open>d[k] = v\<close> on the entries of a dict: in place for a key that is there, at the end otherwise.\<close>

fun dict_set :: "'k \<Rightarrow> 'v \<Rightarrow> ('k \<times> 'v) list \<Rightarrow> ('k \<times> 'v) list" where
  "dict_set k v [] = [(k, v)]"
| "dict_set k v (p # ps) = (if fst p = k then (k, v) # ps else p # dict_set k v ps)"

text \<open>\<^verbatim>\<open>v.get(k, dflt)\<close>: the value stored under the key, itself and not a copy.\<close>

definition get_h :: "heap \<Rightarrow> pval \<Rightarrow> string \<Rightarrow> pval \<Rightarrow> py_error + pval" where
  "get_h h v k dflt =
     (case v of
        PRef a \<Rightarrow>
          (case obj_at h a of
             Some (PDict f) \<Rightarrow> Inr (case map_of f k of None \<Rightarrow> dflt | Some x \<Rightarrow> x)
           | _ \<Rightarrow> Inl AttributeError)
      | _ \<Rightarrow> Inl AttributeError)"

text \<open>The values a \<^verbatim>\<open>for\<close> loop over \<open>v\<close> visits.\<close>

definition iter_h :: "heap \<Rightarrow> pval \<Rightarrow> py_error + pval list" where
  "iter_h h v =
     (case v of
        PRef a \<Rightarrow>
          (case obj_at h a of
             Some (PList vs) \<Rightarrow> Inr vs
           | Some (PDict f) \<Rightarrow> Inr (map (\<lambda>kv. PStr (fst kv)) f)
           | _ \<Rightarrow> Inl TypeError)
      | PStr s \<Rightarrow> Inr (map (\<lambda>c. PStr [c]) s)
      | _ \<Rightarrow> Inl TypeError)"

text \<open>
  \<^verbatim>\<open>expected_items[k][field] += amount\<close> (lines 130 and 144), where \<open>e\<close> is the address
  of \<^verbatim>\<open>expected_items\<close>: the write goes to the counter dict the index holds for \<open>k\<close>.
\<close>

definition counter_add :: "addr \<Rightarrow> key \<Rightarrow> string \<Rightarrow> json \<Rightarrow> heap \<Rightarrow> heap \<times> (py_error + unit)" where
  "counter_add e k field amount h =
     (case obj_at h e of
        Some (PIndex ix) \<Rightarrow>
          (case map_of ix k of
             Some (PRef c) \<Rightarrow>
               (case obj_at h c of
                  Some (PDict cnt) \<Rightarrow>
                    (case map_of cnt field of
                       Some (PInt a) \<Rightarrow>
                         (case py_add a amount of
                            Inl x \<Rightarrow> (h, Inl x)
                          | Inr n \<Rightarrow> (h[c := PDict (dict_set field (PInt n) cnt)], Inr ()))
                     | _ \<Rightarrow> (h, Inl KeyError))
                | _ \<Rightarrow> (h, Inl TypeError))
           | _ \<Rightarrow> (h, Inl KeyError))
      | _ \<Rightarrow> (h, Inl TypeError))"

text \<open>Lines 128 and 129: a new counter dict for a key that is not in the index.\<close>

definition ensure_key :: "addr \<Rightarrow> key \<Rightarrow> heap \<Rightarrow> heap \<times> (py_error + unit)" where
  "ensure_key e k h =
     (case obj_at h e of
        Some (PIndex ix) \<Rightarrow>
          (if k \<in> set (map fst ix) then (h, Inr ())
           else (let ch = alloc (PDict [(''expected'', PInt 0), (''received'', PInt 0)]) h
                 in ((snd ch)[e := PIndex (ix @ [(k, PRef (fst ch))])], Inr ())))
      | _ \<Rightarrow> (h, Inl TypeError))"

text \<open>Lines 124 to 130.\<close>

definition build_step_h :: "addr \<Rightarrow> pval \<Rightarrow> heap \<Rightarrow> heap \<times> (py_error + unit)" where
  "build_step_h e line h =
     (case line_key (jview h line) of
        Inl x \<Rightarrow> (h, Inl x)
      | Inr k \<Rightarrow>
          (case ensure_key e k h of
             (h1, Inl x) \<Rightarrow> (h1, Inl x)
           | (h1, Inr w) \<Rightarrow>
               (case py_get (jview h1 line) ''qty_units_expected'' (JInt 0) of
                  Inl x \<Rightarrow> (h1, Inl x)
                | Inr q \<Rightarrow> counter_add e k ''expected'' q h1)))"

fun build_index_h :: "addr \<Rightarrow> pval list \<Rightarrow> heap \<Rightarrow> heap \<times> (py_error + unit)" where
  "build_index_h e [] h = (h, Inr ())"
| "build_index_h e (line # rest) h =
     (case build_step_h e line h of
        (h', Inl x) \<Rightarrow> (h', Inl x)
      | (h', Inr u) \<Rightarrow> build_index_h e rest h')"

text \<open>Lines 139 to 146.\<close>

fun scan_keys_h :: "addr \<Rightarrow> string \<Rightarrow> string \<Rightarrow> key list \<Rightarrow> heap \<Rightarrow> heap \<times> (py_error + bool)" where
  "scan_keys_h e sticker_style sticker_size [] h = (h, Inr False)"
| "scan_keys_h e sticker_style sticker_size (challan_key # rest) h =
     (if startswith (fst challan_key) sticker_style \<and> snd challan_key = sticker_size
      then (case counter_add e challan_key ''received'' (JInt 1) h of
              (h', Inl x) \<Rightarrow> (h', Inl x)
            | (h', Inr u) \<Rightarrow> (h', Inr True))
      else scan_keys_h e sticker_style sticker_size rest h)"

text \<open>
  Lines 135 to 149, where \<open>u\<close> is the address of \<^verbatim>\<open>unmatched_stickers\<close>: the sticker
  appended is the value the loop holds, a reference to the scanned record.
\<close>

definition match_step_h :: "addr \<Rightarrow> addr \<Rightarrow> pval \<Rightarrow> heap \<Rightarrow> heap \<times> (py_error + unit)" where
  "match_step_h e u sticker h =
     (case sticker_key (jview h sticker) of
        Inl x \<Rightarrow> (h, Inl x)
      | Inr sk \<Rightarrow>
          (case obj_at h e of
             Some (PIndex ix) \<Rightarrow>
               (case scan_keys_h e (fst sk) (snd sk) (map fst ix) h of
                  (h', Inl x) \<Rightarrow> (h', Inl x)
                | (h', Inr True) \<Rightarrow> (h', Inr ())
                | (h', Inr False) \<Rightarrow>
                    (case obj_at h' u of
                       Some (PList vs) \<Rightarrow> (h'[u := PList (vs @ [sticker])], Inr ())
                     | _ \<Rightarrow> (h', Inl AttributeError)))
           | _ \<Rightarrow> (h, Inl TypeError)))"

fun match_stickers_h :: "addr \<Rightarrow> addr \<Rightarrow> pval list \<Rightarrow> heap \<Rightarrow> heap \<times> (py_error + unit)" where
  "match_stickers_h e u [] h = (h, Inr ())"
| "match_stickers_h e u (sticker # rest) h =
     (case match_step_h e u sticker h of
        (h', Inl x) \<Rightarrow> (h', Inl x)
      | (h', Inr w) \<Rightarrow> match_stickers_h e u rest h')"

text \<open>\<^verbatim>\<open>report_data.append({...})\<close>, where \<open>r\<close> is the address of \<^verbatim>\<open>report_data\<close>.\<close>

definition append_row :: "addr \<Rightarrow> pobj \<Rightarrow> heap \<Rightarrow> heap \<times> (py_error + unit)" where
  "append_row r row h =
     (let ah = alloc row h
      in case obj_at (snd ah) r of
           Some (PList rows) \<Rightarrow> ((snd ah)[r := PList (rows @ [PRef (fst ah)])], Inr ())
         | _ \<Rightarrow> (snd ah, Inl AttributeError))"

text \<open>Lines 153 to 162. As above, a status is written as its word.\<close>

definition key_row_h :: "addr \<Rightarrow> key \<times> pval \<Rightarrow> heap \<Rightarrow> heap \<times> (py_error + unit)" where
  "key_row_h r kd h =
     (case snd kd of
        PRef c \<Rightarrow>
          (case obj_at h c of
             Some (PDict data) \<Rightarrow>
               (case (map_of data ''received'', map_of data ''expected'') of
                  (Some (PInt rc), Some (PInt ex)) \<Rightarrow>
                    (let variance = rc - ex;
                         status = (if variance = 0 then ''MATCH''
                                   else (if variance < 0 then ''SHORT'' else ''OVER''))
                     in append_row r
                          (PDict [(''Challan Description'', PStr (fst (fst kd))),
                                  (''Size'', PStr (snd (fst kd))),
                                  (''Expected'', PInt ex), (''Received'', PInt rc),
                                  (''Variance'', PInt variance), (''Status'', PStr status)]) h)
                | _ \<Rightarrow> (h, Inl KeyError))
           | _ \<Rightarrow> (h, Inl TypeError))
      | _ \<Rightarrow> (h, Inl TypeError))"

fun key_rows_h :: "addr \<Rightarrow> (key \<times> pval) list \<Rightarrow> heap \<Rightarrow> heap \<times> (py_error + unit)" where
  "key_rows_h r [] h = (h, Inr ())"
| "key_rows_h r (kd # rest) h =
     (case key_row_h r kd h of
        (h', Inl x) \<Rightarrow> (h', Inl x)
      | (h', Inr w) \<Rightarrow> key_rows_h r rest h')"

text \<open>
  Lines 165 to 172. The description is a new string; the Size cell is what
  \<^verbatim>\<open>sticker.get('code_size', '')\<close> returns.
\<close>

definition unmatched_row_h :: "addr \<Rightarrow> pval \<Rightarrow> heap \<Rightarrow> heap \<times> (py_error + unit)" where
  "unmatched_row_h r sticker h =
     (case get_h h sticker ''style'' (PStr []) of
        Inl x \<Rightarrow> (h, Inl x)
      | Inr a \<Rightarrow>
          (case get_h h sticker ''code_size'' (PStr []) of
             Inl x \<Rightarrow> (h, Inl x)
           | Inr b \<Rightarrow>
               append_row r
                 (PDict [(''Challan Description'', PStr (''(UNMATCHED SCAN) '' @ py_str (jview h a))),
                         (''Size'', b),
                         (''Expected'', PInt 0), (''Received'', PInt 1),
                         (''Variance'', PInt 1), (''Status'', PStr ''OVER'')]) h))"

fun unmatched_rows_h :: "addr \<Rightarrow> pval list \<Rightarrow> heap \<Rightarrow> heap \<times> (py_error + unit)" where
  "unmatched_rows_h r [] h = (h, Inr ())"
| "unmatched_rows_h r (sticker # rest) h =
     (case unmatched_row_h r sticker h of
        (h', Inl x) \<Rightarrow> (h', Inl x)
      | (h', Inr w) \<Rightarrow> unmatched_rows_h r rest h')"

text \<open>
  Lines 151 to 174. The data frame is built from \<^verbatim>\<open>report_data\<close>, whose address is
  returned: its cells are the values of the row dicts.
\<close>

definition report_h :: "addr \<Rightarrow> addr \<Rightarrow> heap \<Rightarrow> heap \<times> (py_error + pval option)" where
  "report_h e u h =
     (let rh = alloc (PList []) h
      in case (obj_at (snd rh) e, obj_at (snd rh) u) of
           (Some (PIndex ix), Some (PList unmatched)) \<Rightarrow>
             (case key_rows_h (fst rh) ix (snd rh) of
                (h', Inl x) \<Rightarrow> (h', Inl x)
              | (h', Inr w) \<Rightarrow>
                  (case unmatched_rows_h (fst rh) unmatched h' of
                     (h'', Inl x) \<Rightarrow> (h'', Inl x)
                   | (h'', Inr w) \<Rightarrow> (h'', Inr (Some (PRef (fst rh))))))
         | _ \<Rightarrow> (snd rh, Inl TypeError))"

text \<open>Lines 132 to 174.\<close>

definition match_h :: "addr \<Rightarrow> pval \<Rightarrow> heap \<Rightarrow> heap \<times> (py_error + pval option)" where
  "match_h e stickers h =
     (let uh = alloc (PList []) h
      in case iter_h (snd uh) stickers of
           Inl x \<Rightarrow> (snd uh, Inl x)
         | Inr svs \<Rightarrow>
             (case match_stickers_h e (fst uh) svs (snd uh) of
                (h', Inl x) \<Rightarrow> (h', Inl x)
              | (h', Inr w) \<Rightarrow> report_h e (fst uh) h'))"

text \<open>
  Lines 118 to 174, for the store \<open>h\<close> and the two values the session holds. The result
  is the store after the run and the outcome: an exception, \<^verbatim>\<open>None\<close> after the warning,
  or the report. The default \<^verbatim>\<open>[]\<close> of line 123 is a new list, like the \<^verbatim>\<open>{}\<close> of line
  122.
\<close>

definition run_h :: "heap \<Rightarrow> pval \<Rightarrow> pval \<Rightarrow> heap \<times> (py_error + pval option)" where
  "run_h h challan stickers =
     (if \<not> truthy (jview h challan) then (h, Inr None)
      else case py_in ''lines'' (jview h challan) of
          Inl x \<Rightarrow> (h, Inl x)
        | Inr False \<Rightarrow> (h, Inr None)
        | Inr True \<Rightarrow>
            (let eh = alloc (PIndex []) h;
                 dh = alloc (PList []) (snd eh)
             in case get_h (snd dh) challan ''lines'' (PRef (fst dh)) of
                  Inl x \<Rightarrow> (snd dh, Inl x)
                | Inr lv \<Rightarrow>
                    (case iter_h (snd dh) lv of
                       Inl x \<Rightarrow> (snd dh, Inl x)
                     | Inr lines \<Rightarrow>
                         (case build_index_h (fst eh) lines (snd dh) of
                            (h', Inl x) \<Rightarrow> (h', Inl x)
                          | (h', Inr w) \<Rightarrow> match_h (fst eh) stickers h'))))"


text \<open>
  Two stores, each with a challan and a sticker list: in the second one the unmatched
  sticker's \<^verbatim>\<open>code_size\<close> is a list.
\<close>

definition scalar_sizes_heap :: heap where
  "scalar_sizes_heap =
     [PDict [(''material_description'', PStr ''Men's Shirt''), (''size'', PStr ''m ''),
             (''qty_units_expected'', PInt 1)],
      PDict [(''material_description'', PStr ''Women's Top''), (''size'', PStr ''S''),
             (''qty_units_expected'', PInt 2)],
      PList [PRef 0, PRef 1],
      PDict [(''challan_number'', PStr ''DC-17''), (''lines'', PRef 2)],
      PDict [(''style'', PStr ''Men's''), (''code_size'', PStr '' m '')],
      PDict [(''style'', PStr ''Kid's''), (''code_size'', PStr ''S'')],
      PList [PRef 4, PRef 5]]"

definition list_size_heap :: heap where
  "list_size_heap =
     [PDict [(''material_description'', PStr ''Men's Shirt''), (''size'', PStr ''M''),
             (''qty_units_expected'', PInt 1)],
      PList [PRef 0],
      PDict [(''lines'', PRef 1)],
      PList [PStr ''S''],
      PDict [(''style'', PStr ''Kid's''), (''code_size'', PRef 3)],
      PList [PRef 4]]"

text \<open>
  What the proofs below maintain. \<open>kept n h h'\<close>: the objects below \<open>n\<close> are the same in
  \<open>h'\<close> as in \<open>h\<close>. \<open>index_inv\<close>: the index and its counters were allocated by the run
  (at \<open>n\<close> or above) and before \<open>b\<close>.
\<close>

definition kept :: "nat \<Rightarrow> heap \<Rightarrow> heap \<Rightarrow> bool" where
  "kept n h h' = (length h \<le> length h' \<and> (\<forall>a < n. h' ! a = h ! a))"

definition index_inv :: "nat \<Rightarrow> nat \<Rightarrow> addr \<Rightarrow> heap \<Rightarrow> bool" where
  "index_inv n b e h =
     (n \<le> e \<and> e < b \<and> b \<le> length h \<and>
      (\<exists>ix. h ! e = PIndex ix \<and>
            (\<forall>kv \<in> set ix. \<exists>c. snd kv = PRef c \<and> n \<le> c \<and> c < b \<and> c \<noteq> e)))"

section \<open>The store and the values it stands for\<close>

text \<open>
  What \<^verbatim>\<open>json.loads\<close> builds: every object refers only to objects allocated before it,
  so the store has no cycle and \<open>jview\<close> reads every value to its leaves.
\<close>

definition val_below :: "nat \<Rightarrow> pval \<Rightarrow> bool" where
  "val_below a v = (case v of PRef b \<Rightarrow> b < a | _ \<Rightarrow> True)"

definition obj_below :: "nat \<Rightarrow> pobj \<Rightarrow> bool" where
  "obj_below a ob =
     (case ob of
        PList vs \<Rightarrow> list_all (val_below a) vs
      | PDict f \<Rightarrow> list_all (\<lambda>kv. val_below a (snd kv)) f
      | PIndex ix \<Rightarrow> True)"

definition tree_store :: "heap \<Rightarrow> bool" where
  "tree_store h = list_all (\<lambda>a. obj_below a (h ! a)) [0..<length h]"

text \<open>The cells of a row of the report, as the values of the row dict.\<close>

definition status_text :: "status \<Rightarrow> string" where
  "status_text s = (case s of MATCH \<Rightarrow> ''MATCH'' | SHORT \<Rightarrow> ''SHORT'' | OVER \<Rightarrow> ''OVER'')"

definition row_json :: "row \<Rightarrow> json" where
  "row_json r =
     JObj [(''Challan Description'', JStr (Challan_Description r)), (''Size'', Size r),
           (''Expected'', JInt (Expected r)), (''Received'', JInt (Received r)),
           (''Variance'', JInt (Variance r)), (''Status'', JStr (status_text (Status r)))]"

text \<open>
  The index of the store at \<open>e\<close> stands for the index \<open>idx\<close>: the same keys in the same
  order, the counter of the \<open>i\<close>-th key stored at \<open>cs ! i\<close>, a new object of its own.
\<close>

definition counter_obj :: "counter \<Rightarrow> pobj" where
  "counter_obj c = PDict [(''expected'', PInt (expected c)), (''received'', PInt (received c))]"

definition index_rel :: "nat \<Rightarrow> addr \<Rightarrow> heap \<Rightarrow> addr list \<Rightarrow> index \<Rightarrow> bool" where
  "index_rel n e h cs idx =
     (n \<le> e \<and> length cs = length idx \<and> distinct cs \<and> distinct (map fst idx) \<and>
      obj_at h e = Some (PIndex (zip (map fst idx) (map PRef cs))) \<and>
      (\<forall>i < length idx. n \<le> cs ! i \<and> cs ! i \<noteq> e \<and>
                           obj_at h (cs ! i) = Some (counter_obj (snd (idx ! i)))))"

text \<open>
  The cells of the row dicts that lines 153 to 172 build: for a key and its counter, and
  for an unmatched sticker, from the string \<open>a\<close> that \<^verbatim>\<open>str\<close> gives for its style and the
  value \<open>b\<close> that \<^verbatim>\<open>sticker.get('code_size', '')\<close> returns.
\<close>

definition key_cells :: "key \<times> counter \<Rightarrow> (string \<times> pval) list" where
  "key_cells kc =
     (let variance = received (snd kc) - expected (snd kc);
          status = (if variance = 0 then ''MATCH''
                    else (if variance < 0 then ''SHORT'' else ''OVER''))
      in [(''Challan Description'', PStr (fst (fst kc))), (''Size'', PStr (snd (fst kc))),
          (''Expected'', PInt (expected (snd kc))), (''Received'', PInt (received (snd kc))),
          (''Variance'', PInt variance), (''Status'', PStr status)])"

definition unmatched_cells :: "string \<Rightarrow> pval \<Rightarrow> (string \<times> pval) list" where
  "unmatched_cells a b =
     [(''Challan Description'', PStr (''(UNMATCHED SCAN) '' @ a)), (''Size'', b),
      (''Expected'', PInt 0), (''Received'', PInt 1),
      (''Variance'', PInt 1), (''Status'', PStr ''OVER'')]"

definition sticker_cells :: "heap \<Rightarrow> pval \<Rightarrow> (string \<times> pval) list" where
  "sticker_cells h sticker =
     (case get_h h sticker ''style'' (PStr []) of
        Inl x \<Rightarrow> []
      | Inr a \<Rightarrow>
          (case get_h h sticker ''code_size'' (PStr []) of
             Inl x \<Rightarrow> []
           | Inr b \<Rightarrow> unmatched_cells (py_str (jview h a)) b))"

text \<open>
  The row dict \<open>x\<close> of the report list at \<open>r\<close> has the cells \<open>snd p\<close> and stands for the
  row \<open>fst p\<close>: it is a new object whose cells are scalars or objects of the store \<open>h0\<close>
  the run started from.
\<close>

definition row_rel :: "heap \<Rightarrow> addr \<Rightarrow> heap \<Rightarrow> pval \<Rightarrow> row \<times> (string \<times> pval) list \<Rightarrow> bool" where
  "row_rel h0 r h x p =
     (case x of
        PRef \<rho> \<Rightarrow>
          length h0 \<le> \<rho> \<and> \<rho> \<noteq> r \<and> obj_at h \<rho> = Some (PDict (snd p)) \<and>
          list_all (\<lambda>kv. val_below (length h0) (snd kv)) (snd p) \<and>
          JObj (map (\<lambda>kv. (fst kv, jview h0 (snd kv))) (snd p)) = row_json (fst p)
      | _ \<Rightarrow> False)"

text \<open>
  The value \<open>v\<close> a run returns is a new list of row dicts: those of the keys of \<open>idx\<close>, and
  then those of the unmatched stickers \<open>un\<close>, which stand for the rows \<open>rs\<close>.
\<close>

definition report_rel :: "heap \<Rightarrow> heap \<Rightarrow> pval \<Rightarrow> index \<Rightarrow> row list \<Rightarrow> pval list \<Rightarrow> bool" where
  "report_rel h0 h v idx rs un =
     (case v of
        PRef r \<Rightarrow>
          length h0 \<le> r \<and> length rs = length un \<and>
          (case obj_at h r of
             Some (PList xs) \<Rightarrow>
               list_all2 (row_rel h0 r h) xs
                 (map (\<lambda>kc. (key_row kc, key_cells kc)) idx @ zip rs (map (sticker_cells h0) un))
           | _ \<Rightarrow> False)
      | _ \<Rightarrow> False)"

text \<open>The session a store holds: the challan and the stickers, read to their leaves.\<close>

definition run_session :: "heap \<Rightarrow> pval \<Rightarrow> pval list \<Rightarrow> session" where
  "run_session h challan svs =
     \<lparr>challan_data = jview h challan, scanned_stickers = map (jview h) svs,
      reconciliation_report = None\<rparr>"

section \<open>What the specification says, as functions\<close>

text \<open>
  The functions of this section are not translated from the code: they state, in the
  words of \<^verbatim>\<open>spec.md\<close>, what the loops above are claimed to compute, and the
  theorems below compare the two.
\<close>

text \<open>The distinct elements of a list, in the order of their first occurrence.\<close>

primrec first_seen :: "'a list \<Rightarrow> 'a list" where
  "first_seen [] = []"
| "first_seen (x # xs) = x # filter (\<lambda>y. y \<noteq> x) (first_seen xs)"

text \<open>
  The integer a challan line adds to its key's expected count: the value of
  \<^verbatim>\<open>line.get('qty_units_expected', 0)\<close> as the addition to an \<^verbatim>\<open>int\<close> reads it, or the
  exception that addition raises.
\<close>

definition line_qty :: "json \<Rightarrow> py_error + int" where
  "line_qty line =
     (case py_get line ''qty_units_expected'' (JInt 0) of Inl e \<Rightarrow> Inl e | Inr q \<Rightarrow> py_add 0 q)"

text \<open>
  For the keys \<open>ks\<close> and the quantities \<open>qs\<close> of the challan's lines, in line order: the
  sum of the quantities of the lines whose key is \<open>k\<close>.
\<close>

definition qty_total :: "key list \<Rightarrow> int list \<Rightarrow> key \<Rightarrow> int" where
  "qty_total ks qs k = sum_list (map snd (filter (\<lambda>p. fst p = k) (zip ks qs)))"

text \<open>The expected index of section 4.1: one counter for each distinct key, in first-seen order.\<close>

definition index_of :: "key list \<Rightarrow> int list \<Rightarrow> index" where
  "index_of ks qs = map (\<lambda>k. (k, \<lparr>expected = qty_total ks qs k, received = 0\<rparr>)) (first_seen ks)"

text \<open>
  A sticker with the pair \<open>sk\<close> (trimmed style, trimmed and uppercased size) matches
  the key \<open>k\<close> (description, size).
\<close>

definition matches :: "key \<Rightarrow> key \<Rightarrow> bool" where
  "matches sk k = (startswith (fst k) (fst sk) \<and> snd k = snd sk)"

text \<open>The first key, in the order of \<open>ks\<close>, that the sticker matches.\<close>

definition first_match :: "key list \<Rightarrow> key \<Rightarrow> key option" where
  "first_match ks sk = find (matches sk) ks"

text \<open>The number of stickers, among those with the pairs \<open>sks\<close>, whose first match is \<open>k\<close>.\<close>

definition credited :: "key list \<Rightarrow> key list \<Rightarrow> key \<Rightarrow> int" where
  "credited ks sks k = int (length (filter (\<lambda>sk. first_match ks sk = Some k) sks))"

text \<open>The index after the stickers: every key has received one unit for each of its stickers.\<close>

definition credit :: "key list \<Rightarrow> index \<Rightarrow> index" where
  "credit sks idx =
     map (\<lambda>kc. (fst kc, (snd kc)\<lparr>received := received (snd kc) + credited (map fst idx) sks (fst kc)\<rparr>)) idx"

text \<open>The sticker is a record and matches none of the keys \<open>ks\<close>.\<close>

definition no_match :: "key list \<Rightarrow> json \<Rightarrow> bool" where
  "no_match ks sticker =
     (case sticker_key sticker of Inl e \<Rightarrow> False | Inr sk \<Rightarrow> first_match ks sk = None)"

text \<open>The stickers of \<open>svs\<close> that match none of the keys \<open>ks\<close>, in scan order.\<close>

definition unmatched_of :: "heap \<Rightarrow> key list \<Rightarrow> pval list \<Rightarrow> pval list" where
  "unmatched_of h ks svs = filter (\<lambda>sv. no_match ks (jview h sv)) svs"

section \<open>Records with integer quantities\<close>

text \<open>
  The inputs the schemas of \<^verbatim>\<open>src/app.py\<close> describe: a sticker or a challan line is a
  JSON object, and a line's \<^verbatim>\<open>qty_units_expected\<close> is an integer when it is there. A
  boolean is accepted as well, since Python adds it as 0 or 1.
\<close>

definition is_record :: "json \<Rightarrow> bool" where
  "is_record v = (case v of JObj f \<Rightarrow> True | _ \<Rightarrow> False)"

definition int_quantity :: "json \<Rightarrow> bool" where
  "int_quantity line =
     (case line of
        JObj f \<Rightarrow>
          (case map_of f ''qty_units_expected'' of
             None \<Rightarrow> True
           | Some (JInt n) \<Rightarrow> True
           | Some (JBool b) \<Rightarrow> True
           | Some _ \<Rightarrow> False)
      | _ \<Rightarrow> False)"

text \<open>
  A line that is a record whose \<^verbatim>\<open>qty_units_expected\<close> is there and is \<^verbatim>\<open>None\<close>, a
  string, a list or a record: what line 130 cannot add to an integer.
\<close>

definition non_numeric_quantity :: "json \<Rightarrow> bool" where
  "non_numeric_quantity line =
     (case line of
        JObj f \<Rightarrow>
          (case map_of f ''qty_units_expected'' of
             Some JNull \<Rightarrow> True
           | Some (JStr s) \<Rightarrow> True
           | Some (JArr xs) \<Rightarrow> True
           | Some (JObj g) \<Rightarrow> True
           | _ \<Rightarrow> False)
      | _ \<Rightarrow> False)"

section \<open>A worked example\<close>

text \<open>
  A challan whose first and third lines share a key after trimming and uppercasing, with
  a line that has no description and no quantity; and six scans, of which the second
  (wrong case) and the fourth (no such size) match no key.
\<close>

definition example_challan :: json where
  "example_challan =
     JObj [(''challan_number'', JStr ''DC-17''), (''date'', JNull),
           (''lines'', JArr
              [JObj [(''material_description'', JStr ''Men's Shirt''), (''size'', JStr ''m ''),
                     (''qty_units_expected'', JInt 1)],
               JObj [(''material_description'', JStr ''Women's Top''), (''size'', JStr ''S''),
                     (''qty_units_expected'', JInt 2)],
               JObj [(''material_description'', JStr '' Men's Shirt''), (''size'', JStr ''M''),
                     (''qty_units_expected'', JInt 1)],
               JObj [(''size'', JStr ''L'')]])]"

definition example_stickers :: "json list" where
  "example_stickers =
     [JObj [(''style'', JStr ''Men's''), (''code_size'', JStr '' m '')],
      JObj [(''style'', JStr ''men's''), (''code_size'', JStr ''M'')],
      JObj [(''code_size'', JStr ''M'')],
      JObj [(''style'', JStr ''Shirt''), (''code_size'', JInt 4)],
      JObj [(''style'', JStr '' ''), (''code_size'', JStr ''s'')],
      JObj [(''style'', JStr ''Men's''), (''code_size'', JStr ''M''), (''mrp'', JInt 499)]]"

definition example_session :: session where
  "example_session =
     \<lparr>challan_data = example_challan, scanned_stickers = example_stickers,
      reconciliation_report = None\<rparr>"

definition example_report :: "row list" where
  "example_report =
     [\<lparr>Challan_Description = ''Men's Shirt'', Size = JStr ''M'',
       Expected = 2, Received = 3, Variance = 1, Status = OVER\<rparr>,
      \<lparr>Challan_Description = ''Women's Top'', Size = JStr ''S'',
       Expected = 2, Received = 1, Variance = - 1, Status = SHORT\<rparr>,
      \<lparr>Challan_Description = [], Size = JStr ''L'',
       Expected = 0, Received = 0, Variance = 0, Status = MATCH\<rparr>,
      \<lparr>Challan_Description = ''(UNMATCHED SCAN) men's'', Size = JStr ''M'',
       Expected = 0, Received = 1, Variance = 1, Status = OVER\<rparr>,
      \<lparr>Challan_Description = ''(UNMATCHED SCAN) Shirt'', Size = JInt 4,
       Expected = 0, Received = 1, Variance = 1, Status = OVER\<rparr>]"

section \<open>Lemmas about the loops\<close>

lemma set_first_seen [simp]: "set (first_seen xs) = set xs"
  by (induction xs) auto

lemma distinct_first_seen [simp]: "distinct (first_seen xs)"
  by (induction xs) auto

lemma first_seen_snoc:
  "first_seen (xs @ [k]) = (if k \<in> set xs then first_seen xs else first_seen xs @ [k])"
  by (induction xs) auto

lemma modify_keys [simp]: "map fst (modify k f idx) = map fst idx"
  by (induction idx) auto

lemma map_other_keys:
  "k \<notin> fst ` set idx \<Longrightarrow>
   map (\<lambda>kc. if fst kc = k then (fst kc, f (snd kc)) else kc) idx = idx"
  by (induction idx) auto

lemma modify_distinct:
  "distinct (map fst idx) \<Longrightarrow>
   modify k f idx = map (\<lambda>kc. if fst kc = k then (fst kc, f (snd kc)) else kc) idx"
  by (induction idx) (auto simp: map_other_keys)

lemma modify_absent: "k \<notin> set (map fst idx) \<Longrightarrow> modify k f idx = idx"
  by (induction idx) auto

lemma py_add_shift: "py_add a q = (case py_add 0 q of Inl e \<Rightarrow> Inl e | Inr n \<Rightarrow> Inr (a + n))"
  by (simp add: py_add_def split: json.splits)

lemma build_index_snoc:
  "build_index idx (ls @ [l]) =
     (case build_index idx ls of Inl e \<Rightarrow> Inl e | Inr idx' \<Rightarrow> build_step idx' l)"
  by (induction ls arbitrary: idx) (auto split: sum.splits)

lemma qty_total_snoc:
  "length ks = length qs \<Longrightarrow>
   qty_total (ks @ [k]) (qs @ [q]) k' = qty_total ks qs k' + (if k = k' then q else 0)"
  by (simp add: qty_total_def)

lemma qty_total_absent: "length ks = length qs \<Longrightarrow> k \<notin> set ks \<Longrightarrow> qty_total ks qs k = 0"
proof -
  assume "length ks = length qs" "k \<notin> set ks"
  then have "filter (\<lambda>p. fst p = k) (zip ks qs) = []"
    by (auto simp: filter_empty_conv dest: set_zip_leftD)
  then show ?thesis by (simp add: qty_total_def)
qed

lemma map_of_key: "k \<in> fst ` set idx \<Longrightarrow> \<exists>c. map_of idx k = Some c"
  by (cases "map_of idx k") (auto simp: map_of_eq_None_iff)

lemma map_of_snoc_new:
  "k \<notin> fst ` set idx \<Longrightarrow> map_of (idx @ [(k, c)]) k = Some c"
  by (induction idx) auto

lemma modify_snoc_new:
  "k \<notin> fst ` set idx \<Longrightarrow> modify k f (idx @ [(k, c)]) = idx @ [(k, f c)]"
  by (induction idx) auto

lemma modify_expected:
  assumes "distinct (map fst idx)" and "map_of idx k = Some c"
  shows "modify k (\<lambda>c'. c'\<lparr>expected := expected c + q\<rparr>) idx =
         map (\<lambda>kc. if fst kc = k then (fst kc, (snd kc)\<lparr>expected := expected (snd kc) + q\<rparr>) else kc) idx"
proof -
  have "\<And>kc. kc \<in> set idx \<Longrightarrow> fst kc = k \<Longrightarrow> snd kc = c"
    using assms by (metis map_of_is_SomeI option.inject prod.collapse)
  then show ?thesis
    using assms(1) by (simp add: modify_distinct)
qed

lemma line_qty_D: "line_qty l = Inr q \<Longrightarrow> \<exists>v. py_get l ''qty_units_expected'' (JInt 0) = Inr v \<and> py_add 0 v = Inr q"
    by (auto simp: line_qty_def split: sum.splits)

lemma py_add_from_zero: "py_add 0 v = Inr q \<Longrightarrow> py_add a v = Inr (a + q)"
    by (subst py_add_shift) simp

lemma build_step_old_key:
  assumes "line_key l = Inr k" "py_get l ''qty_units_expected'' (JInt 0) = Inr v" "py_add 0 v = Inr q"
   "k \<in> fst ` set idx" "map_of idx k = Some c"
  shows "build_step idx l = Inr (modify k (\<lambda>c'. c'\<lparr>expected := expected c + q\<rparr>) idx)"
proof -
  have add: "py_add (expected c) v = Inr (expected c + q)"
    using assms(3) by (rule py_add_from_zero)
  show ?thesis
    unfolding build_step_def
    by (simp add: assms add)
qed

lemma build_step_new_key:
  assumes "line_key l = Inr k" "py_get l ''qty_units_expected'' (JInt 0) = Inr v" "py_add 0 v = Inr q"
   "k \<notin> fst ` set idx"
  shows "build_step idx l = Inr (idx @ [(k, \<lparr>expected = q, received = 0\<rparr>)])"
proof -
  have add: "py_add 0 v = Inr (0 + q)"
    using assms(3) by simp
  show ?thesis
    unfolding build_step_def
    by (simp add: assms map_of_snoc_new modify_snoc_new del: map_of_append)
qed

lemma build_step_ok:
  assumes "line_key l = Inr k" and "line_qty l = Inr q" and "distinct (map fst idx)"
  shows "build_step idx l =
     Inr (if k \<in> fst ` set idx
          then map (\<lambda>kc. if fst kc = k then (fst kc, (snd kc)\<lparr>expected := expected (snd kc) + q\<rparr>) else kc) idx
          else idx @ [(k, \<lparr>expected = q, received = 0\<rparr>)])"
proof -
  from line_qty_D [OF assms(2)] obtain v
    where v: "py_get l ''qty_units_expected'' (JInt 0) = Inr v" "py_add 0 v = Inr q"
    by (elim exE conjE)
  show ?thesis
  proof (cases "k \<in> fst ` set idx")
    case True
    from map_of_key [OF True] obtain c where c: "map_of idx k = Some c" ..
    have "build_step idx l = Inr (modify k (\<lambda>c'. c'\<lparr>expected := expected c + q\<rparr>) idx)"
      by (rule build_step_old_key [OF assms(1) v True c])
    then show ?thesis
      by (simp only: modify_expected [OF assms(3) c] True if_True)
  next
    case False
    then show ?thesis
      by (simp only: build_step_new_key [OF assms(1) v False] if_False)
  qed
qed

lemma py_add_ok: "py_add a v = Inr n \<Longrightarrow> py_add 0 v = Inr (n - a)"
  by (auto simp: py_add_def split: json.splits)

lemma build_step_wf:
  assumes "build_step idx l = Inr idx'"
  shows "\<exists>k q. line_key l = Inr k \<and> line_qty l = Inr q"
proof -
  from assms obtain k where k: "line_key l = Inr k"
    by (cases "line_key l") (simp_all add: build_step_def)
  define idx1 where "idx1 = (if k \<in> set (map fst idx) then idx else idx @ [(k, \<lparr>expected = 0, received = 0\<rparr>)])"
  from assms k obtain c where c: "map_of idx1 k = Some c"
    by (cases "map_of idx1 k") (simp_all add: build_step_def idx1_def Let_def)
  from assms k c obtain v where v: "py_get l ''qty_units_expected'' (JInt 0) = Inr v"
    by (cases "py_get l ''qty_units_expected'' (JInt 0)") (simp_all add: build_step_def idx1_def Let_def)
  from assms k c v obtain n where n: "py_add (expected c) v = Inr n"
    by (cases "py_add (expected c) v") (simp_all add: build_step_def idx1_def Let_def)
  from n have "py_add 0 v = Inr (n - expected c)" by (rule py_add_ok)
  with v have "line_qty l = Inr (n - expected c)" by (simp add: line_qty_def)
  with k show ?thesis by blast
qed

lemma keys_index_of [simp]: "map fst (index_of ks qs) = first_seen ks"
  by (simp add: index_of_def comp_def)

lemma index_of_snoc_old:
  assumes "length ks = length qs" and "k \<in> set ks"
  shows "index_of (ks @ [k]) (qs @ [q]) =
         map (\<lambda>kc. if fst kc = k then (fst kc, (snd kc)\<lparr>expected := expected (snd kc) + q\<rparr>) else kc)
             (index_of ks qs)"
  using assms by (simp add: index_of_def first_seen_snoc qty_total_snoc comp_def)

lemma index_of_snoc_new:
  assumes "length ks = length qs" and "k \<notin> set ks"
  shows "index_of (ks @ [k]) (qs @ [q]) = index_of ks qs @ [(k, \<lparr>expected = q, received = 0\<rparr>)]"
proof -
  have "\<And>k'. k' \<in> set (first_seen ks) \<Longrightarrow> qty_total (ks @ [k]) (qs @ [q]) k' = qty_total ks qs k'"
    using assms by (auto simp: qty_total_snoc)
  then have "map (\<lambda>k'. (k', \<lparr>expected = qty_total (ks @ [k]) (qs @ [q]) k', received = 0\<rparr>)) (first_seen ks)
      = index_of ks qs"
    unfolding index_of_def by (intro map_cong) simp_all
  moreover have "qty_total (ks @ [k]) (qs @ [q]) k = q"
    using assms by (simp add: qty_total_snoc qty_total_absent)
  ultimately show ?thesis
    using assms(2) by (simp add: index_of_def [of "ks @ [k]"] first_seen_snoc)
qed

lemma build_index_fun:
  assumes "\<And>l. l \<in> set ls \<Longrightarrow> line_key l = Inr (kf l) \<and> line_qty l = Inr (qf l)"
  shows "build_index [] ls = Inr (index_of (map kf ls) (map qf ls))"
  using assms
proof (induction ls rule: rev_induct)
  case Nil
  show ?case by (simp add: index_of_def)
next
  case (snoc l ls)
  have ih: "build_index [] ls = Inr (index_of (map kf ls) (map qf ls))"
    using snoc by simp
  have l: "line_key l = Inr (kf l)" "line_qty l = Inr (qf l)"
    using snoc.prems by simp_all
  have len: "length (map kf ls) = length (map qf ls)" by simp
  have d: "distinct (map fst (index_of (map kf ls) (map qf ls)))" by simp
  have mem: "kf l \<in> fst ` set (index_of (map kf ls) (map qf ls)) \<longleftrightarrow> kf l \<in> set (map kf ls)"
    using keys_index_of [of "map kf ls" "map qf ls"] by (metis set_first_seen set_map)
  show ?case
  proof (cases "kf l \<in> set (map kf ls)")
    case True
    show ?thesis
      using True mem
      by (simp only: build_index_snoc ih sum.case build_step_ok [OF l d] if_True
            index_of_snoc_old [OF len True] map_append list.map)
  next
    case False
    show ?thesis
      using False mem
      by (simp only: build_index_snoc ih sum.case build_step_ok [OF l d] if_False
            index_of_snoc_new [OF len False] map_append list.map)
  qed
qed

lemma build_index_wf:
  "build_index idx ls = Inr idx' \<Longrightarrow> l \<in> set ls \<Longrightarrow>
   \<exists>k q. line_key l = Inr k \<and> line_qty l = Inr q"
proof (induction ls arbitrary: idx)
  case Nil
  then show ?case by simp
next
  case (Cons x ls)
  from Cons.prems(1) obtain idx1 where s: "build_step idx x = Inr idx1" and r: "build_index idx1 ls = Inr idx'"
    by (cases "build_step idx x") simp_all
  show ?case
  proof (cases "l = x")
    case True
    then show ?thesis using build_step_wf [OF s] by simp
  next
    case False
    with Cons.prems(2) have "l \<in> set ls" by simp
    then show ?thesis using Cons.IH [OF r] by simp
  qed
qed

lemma scan_keys_find:
  "set ks \<subseteq> fst ` set idx \<Longrightarrow>
   scan_keys st sz ks idx =
     Inr (case find (matches (st, sz)) ks of
            None \<Rightarrow> (idx, False)
          | Some k \<Rightarrow> (modify k (\<lambda>c. c\<lparr>received := received c + 1\<rparr>) idx, True))"
proof (induction ks)
  case Nil
  show ?case by simp
next
  case (Cons k ks)
  then have "k \<in> fst ` set idx" by simp
  from map_of_key [OF this] obtain c where c: "map_of idx k = Some c" ..
  from Cons have ih: "scan_keys st sz ks idx =
     Inr (case find (matches (st, sz)) ks of
            None \<Rightarrow> (idx, False)
          | Some k \<Rightarrow> (modify k (\<lambda>c. c\<lparr>received := received c + 1\<rparr>) idx, True))"
    by simp
  have m: "matches (st, sz) k = (startswith (fst k) st \<and> snd k = sz)"
    by (simp add: matches_def)
  show ?case
    by (simp add: c ih m)
qed

lemma match_step_find:
  assumes "sticker_key s = Inr sk"
  shows "match_step (idx, un) s =
     Inr (case first_match (map fst idx) sk of
            None \<Rightarrow> (idx, un @ [s])
          | Some k \<Rightarrow> (modify k (\<lambda>c. c\<lparr>received := received c + 1\<rparr>) idx, un))"
proof -
  have "scan_keys (fst sk) (snd sk) (map fst idx) idx =
     Inr (case find (matches sk) (map fst idx) of
            None \<Rightarrow> (idx, False)
          | Some k \<Rightarrow> (modify k (\<lambda>c. c\<lparr>received := received c + 1\<rparr>) idx, True))"
    using scan_keys_find [of "map fst idx" idx "fst sk" "snd sk"] by simp
  then show ?thesis
    by (simp add: match_step_def assms first_match_def split: option.splits)
qed

lemma credit_Nil [simp]: "credit [] idx = idx"
  by (simp add: credit_def credited_def)

lemma keys_credit [simp]: "map fst (credit sks idx) = map fst idx"
  by (simp add: credit_def comp_def)

lemma credited_Cons:
  "credited ks (sk # sks) k = (if first_match ks sk = Some k then 1 else 0) + credited ks sks k"
  by (simp add: credited_def)

lemma credit_unmatched:
  "first_match (map fst idx) sk = None \<Longrightarrow> credit (sk # sks) idx = credit sks idx"
  by (simp add: credit_def credited_Cons)

lemma credit_matched:
  assumes "distinct (map fst idx)" and "first_match (map fst idx) sk = Some k"
  shows "credit sks (modify k (\<lambda>c. c\<lparr>received := received c + 1\<rparr>) idx) = credit (sk # sks) idx"
proof -
  have "credit sks (modify k (\<lambda>c. c\<lparr>received := received c + 1\<rparr>) idx) =
        map (\<lambda>kc. (fst kc, (snd kc)\<lparr>received := received (snd kc) + credited (map fst idx) sks (fst kc)\<rparr>))
            (modify k (\<lambda>c. c\<lparr>received := received c + 1\<rparr>) idx)"
    by (simp add: credit_def)
  also have "\<dots> = map (\<lambda>kc. (fst kc, (snd kc)\<lparr>received := received (snd kc) + credited (map fst idx) (sk # sks) (fst kc)\<rparr>)) idx"
    using assms(2) by (simp add: modify_distinct [OF assms(1)] credited_Cons)
  finally show ?thesis by (simp add: credit_def)
qed

lemma match_stickers_closed:
  assumes "distinct (map fst idx)"
    and "\<And>s. s \<in> set ss \<Longrightarrow> sticker_key s = Inr (skf s)"
  shows "match_stickers (idx, un) ss =
         Inr (credit (map skf ss) idx, un @ filter (no_match (map fst idx)) ss)"
  using assms
proof (induction ss arbitrary: idx un)
  case Nil
  show ?case by simp
next
  case (Cons s ss)
  have sk: "sticker_key s = Inr (skf s)" using Cons.prems(2) by simp
  have rest: "\<And>x. x \<in> set ss \<Longrightarrow> sticker_key x = Inr (skf x)" using Cons.prems(2) by simp
  show ?case
  proof (cases "first_match (map fst idx) (skf s)")
    case None
    have step: "match_step (idx, un) s = Inr (idx, un @ [s])"
      using match_step_find [OF sk, of idx un] None by simp
    have nm: "no_match (map fst idx) s" using sk None by (simp add: no_match_def)
    show ?thesis
      using Cons.IH [OF Cons.prems(1) rest, of "un @ [s]"] step nm credit_unmatched [OF None, of "map skf ss"]
      by simp
  next
    case (Some k)
    let ?idx1 = "modify k (\<lambda>c. c\<lparr>received := received c + 1\<rparr>) idx"
    have step: "match_step (idx, un) s = Inr (?idx1, un)"
      using match_step_find [OF sk, of idx un] Some by simp
    have nm: "\<not> no_match (map fst idx) s" using sk Some by (simp add: no_match_def)
    have d1: "distinct (map fst ?idx1)" using Cons.prems(1) by simp
    show ?thesis
      using Cons.IH [OF d1 rest, of un] step nm credit_matched [OF Cons.prems(1) Some, of "map skf ss"]
      by simp
  qed
qed

lemma match_step_wf: "match_step st s = Inr st' \<Longrightarrow> \<exists>sk. sticker_key s = Inr sk"
  by (cases "sticker_key s") (simp_all add: match_step_def)

lemma match_stickers_wf:
  "match_stickers st ss = Inr st' \<Longrightarrow> s \<in> set ss \<Longrightarrow> \<exists>sk. sticker_key s = Inr sk"
proof (induction ss arbitrary: st)
  case Nil
  then show ?case by simp
next
  case (Cons x ss)
  from Cons.prems(1) obtain st1 where a: "match_step st x = Inr st1" and r: "match_stickers st1 ss = Inr st'"
    by (cases "match_step st x") simp_all
  show ?case
  proof (cases "s = x")
    case True
    then show ?thesis using match_step_wf [OF a] by simp
  next
    case False
    with Cons.prems(2) have "s \<in> set ss" by simp
    then show ?thesis using Cons.IH [OF r] by simp
  qed
qed

lemma run_Report_D:
  assumes "run_reconciliation st = Inr (Report rows)"
  shows "\<exists>ls idx idx' un rs.
           truthy (challan_data st) \<and> py_in ''lines'' (challan_data st) = Inr True \<and>
           challan_lines (challan_data st) = Inr ls \<and> build_index [] ls = Inr idx \<and>
           match_stickers (idx, []) (scanned_stickers st) = Inr (idx', un) \<and>
           unmatched_rows un = Inr rs \<and> rows = map key_row idx' @ rs"
proof -
  have t: "truthy (challan_data st)"
    using assms by (cases "truthy (challan_data st)") (simp_all add: run_reconciliation_def)
  have i: "py_in ''lines'' (challan_data st) = Inr True"
    using assms t by (simp add: run_reconciliation_def split: sum.splits bool.splits)
  obtain ls where ls: "challan_lines (challan_data st) = Inr ls"
    using assms t i by (cases "challan_lines (challan_data st)") (simp_all add: run_reconciliation_def)
  obtain idx where idx: "build_index [] ls = Inr idx"
    using assms t i ls by (cases "build_index [] ls") (simp_all add: run_reconciliation_def)
  obtain m where m: "match_stickers (idx, []) (scanned_stickers st) = Inr m"
    using assms t i ls idx
    by (cases "match_stickers (idx, []) (scanned_stickers st)") (simp_all add: run_reconciliation_def)
  obtain rs where rs: "unmatched_rows (snd m) = Inr rs"
    using assms t i ls idx m
    by (cases "unmatched_rows (snd m)") (simp_all add: run_reconciliation_def)
  have "rows = map key_row (fst m) @ rs"
    using assms t i ls idx m rs by (simp add: run_reconciliation_def)
  with t i ls idx m rs show ?thesis
    by (metis prod.collapse)
qed

lemma run_Report_I:
  assumes "truthy (challan_data st)" and "py_in ''lines'' (challan_data st) = Inr True"
    and "challan_lines (challan_data st) = Inr ls" and "build_index [] ls = Inr idx"
    and "match_stickers (idx, []) (scanned_stickers st) = Inr (idx', un)"
    and "unmatched_rows un = Inr rs"
  shows "run_reconciliation st = Inr (Report (map key_row idx' @ rs))"
  using assms by (simp add: run_reconciliation_def)

lemma map_Inr_fun:
  assumes "map f xs = map Inr ys"
  shows "\<And>x. x \<in> set xs \<Longrightarrow> f x = Inr (projr (f x))" and "map (\<lambda>x. projr (f x)) xs = ys"
proof -
  from assms have len: "length xs = length ys" by (metis length_map)
  from assms have nth: "\<And>i. i < length xs \<Longrightarrow> f (xs ! i) = Inr (ys ! i)"
    by (metis len nth_map)
  show "\<And>x. x \<in> set xs \<Longrightarrow> f x = Inr (projr (f x))"
    using nth by (metis in_set_conv_nth sum.sel(2))
  show "map (\<lambda>x. projr (f x)) xs = ys"
    using len nth by (simp add: list_eq_iff_nth_eq)
qed

lemma map_Inr_ex:
  assumes "\<And>x. x \<in> set xs \<Longrightarrow> \<exists>y. f x = Inr y"
  shows "map f xs = map Inr (map (\<lambda>x. projr (f x)) xs)"
proof -
  have "\<And>x. x \<in> set xs \<Longrightarrow> f x = Inr (projr (f x))"
    using assms by (metis sum.sel(2))
  then show ?thesis by simp
qed

lemma build_index_iff:
  "build_index [] ls = Inr idx \<longleftrightarrow>
   (\<exists>ks qs. map line_key ls = map Inr ks \<and> map line_qty ls = map Inr qs \<and> idx = index_of ks qs)"
proof
  assume a: "build_index [] ls = Inr idx"
  let ?kf = "\<lambda>l. projr (line_key l)" and ?qf = "\<lambda>l. projr (line_qty l)"
  have wf: "\<And>l. l \<in> set ls \<Longrightarrow> line_key l = Inr (?kf l) \<and> line_qty l = Inr (?qf l)"
    using build_index_wf [OF a] by fastforce
  have k: "map line_key ls = map Inr (map ?kf ls)" using wf by simp
  have q: "map line_qty ls = map Inr (map ?qf ls)" using wf by simp
  have "idx = index_of (map ?kf ls) (map ?qf ls)"
    using build_index_fun [of ls ?kf ?qf] wf a by simp
  with k q show "\<exists>ks qs. map line_key ls = map Inr ks \<and> map line_qty ls = map Inr qs \<and> idx = index_of ks qs"
    by blast
next
  assume "\<exists>ks qs. map line_key ls = map Inr ks \<and> map line_qty ls = map Inr qs \<and> idx = index_of ks qs"
  then obtain ks qs where k: "map line_key ls = map Inr ks" and q: "map line_qty ls = map Inr qs"
    and i: "idx = index_of ks qs" by blast
  have "\<And>l. l \<in> set ls \<Longrightarrow> line_key l = Inr (projr (line_key l)) \<and> line_qty l = Inr (projr (line_qty l))"
    using map_Inr_fun(1) [OF k] map_Inr_fun(1) [OF q] by simp
  from build_index_fun [of ls "\<lambda>l. projr (line_key l)" "\<lambda>l. projr (line_qty l)", OF this]
  show "build_index [] ls = Inr idx"
    by (simp add: map_Inr_fun(2) [OF k] map_Inr_fun(2) [OF q] i)
qed

lemma line_key_record:
  "line_key (JObj f) =
     Inr (strip (py_str (dict_get f ''material_description'' (JStr []))),
          upper (strip (py_str (dict_get f ''size'' (JStr [])))))"
  by (simp add: line_key_def py_get_def)

lemma line_qty_missing: "map_of f ''qty_units_expected'' = None \<Longrightarrow> line_qty (JObj f) = Inr 0"
  by (simp add: line_qty_def py_get_def dict_get_def py_add_def)

lemma two_lines:
  "build_index []
     [JObj [(''material_description'', JStr d), (''size'', JStr z), (''qty_units_expected'', JInt 5)],
      JObj [(''material_description'', JStr d), (''size'', JStr z), (''qty_units_expected'', JInt 3)]]
   = Inr [((strip d, upper (strip z)), \<lparr>expected = 8, received = 0\<rparr>)]"
  by (simp add: build_step_def line_key_def py_get_def dict_get_def py_add_def py_str_def)

section \<open>The claims\<close>

text \<open>
  C2. Building the expected index succeeds exactly when every line has a key and an
  integer quantity, and then it is \<open>index_of\<close>: one counter for each distinct key
  (trimmed description, trimmed and uppercased size), in first-encountered order, whose
  \<open>expected\<close> is the sum of the quantities of the lines with that key and whose
  \<open>received\<close> is 0. A line without a quantity contributes 0. Two lines with the same
  description and size and the quantities 5 and 3 give a single key with expected 8.
\<close>

theorem expected_index_sums:
  "(build_index [] ls = Inr idx \<longleftrightarrow>
      (\<exists>ks qs. map line_key ls = map Inr ks \<and> map line_qty ls = map Inr qs \<and> idx = index_of ks qs))
   \<and> map fst (index_of ks qs) = first_seen ks
   \<and> distinct (map fst (index_of ks qs))
   \<and> (\<forall>kc \<in> set (index_of ks qs). expected (snd kc) = qty_total ks qs (fst kc) \<and> received (snd kc) = 0)
   \<and> line_key (JObj f) =
         Inr (strip (py_str (dict_get f ''material_description'' (JStr []))),
              upper (strip (py_str (dict_get f ''size'' (JStr [])))))
   \<and> (map_of f ''qty_units_expected'' = None \<longrightarrow> line_qty (JObj f) = Inr 0)
   \<and> build_index []
         [JObj [(''material_description'', JStr d), (''size'', JStr z), (''qty_units_expected'', JInt 5)],
          JObj [(''material_description'', JStr d), (''size'', JStr z), (''qty_units_expected'', JInt 3)]]
       = Inr [((strip d, upper (strip z)), \<lparr>expected = 8, received = 0\<rparr>)]"
proof -
  have "\<forall>kc \<in> set (index_of ks qs). expected (snd kc) = qty_total ks qs (fst kc) \<and> received (snd kc) = 0"
    by (auto simp: index_of_def)
  then show ?thesis
    using build_index_iff [of ls idx] line_key_record [of f] line_qty_missing [of f] two_lines [of d z]
    by (intro conjI impI) (simp_all only: keys_index_of distinct_first_seen)
qed

theorem expected_index_sums_witness:
  "build_index []
     [JObj [(''material_description'', JStr ''Men's Shirt''), (''size'', JStr ''m ''), (''qty_units_expected'', JInt 5)],
      JObj [(''material_description'', JStr ''Women's Top''), (''size'', JStr ''S'')],
      JObj [(''material_description'', JStr '' Men's Shirt''), (''size'', JStr ''M''), (''qty_units_expected'', JInt 3)]]
   = Inr [((''Men's Shirt'', ''M''), \<lparr>expected = 8, received = 0\<rparr>),
          ((''Women's Top'', ''S''), \<lparr>expected = 0, received = 0\<rparr>)]
   \<and> (\<exists>ks qs. [((''Men's Shirt'', ''M''), \<lparr>expected = 8, received = 0\<rparr>),
                 ((''Women's Top'', ''S''), \<lparr>expected = 0, received = 0\<rparr>)] = index_of ks qs
          \<and> qs = [5, 0, 3])"
proof -
  let ?ls = "[JObj [(''material_description'', JStr ''Men's Shirt''), (''size'', JStr ''m ''), (''qty_units_expected'', JInt 5)],
      JObj [(''material_description'', JStr ''Women's Top''), (''size'', JStr ''S'')],
      JObj [(''material_description'', JStr '' Men's Shirt''), (''size'', JStr ''M''), (''qty_units_expected'', JInt 3)]]"
  let ?idx = "[((''Men's Shirt'', ''M''), \<lparr>expected = 8, received = 0\<rparr>),
          ((''Women's Top'', ''S''), \<lparr>expected = 0, received = 0\<rparr>)]"
  have h: "build_index [] ?ls = Inr ?idx"
    by code_simp
  have q: "map line_qty ?ls = map Inr [5, 0, 3]"
    by code_simp
  from h expected_index_sums [of ?ls ?idx]
  obtain ks qs where "map line_qty ?ls = map Inr qs" and "?idx = index_of ks qs"
    by blast
  with q h show ?thesis
    by (metis inj_Inr inj_map_eq_map)
qed

lemma sticker_key_record:
  "sticker_key (JObj f) =
     Inr (strip (py_str (dict_get f ''style'' (JStr []))),
          upper (strip (py_str (dict_get f ''code_size'' (JStr [])))))"
  by (simp add: sticker_key_def py_get_def)

lemma match_stickers_list:
  assumes "distinct (map fst idx)" and "map sticker_key stickers = map Inr sks"
  shows "match_stickers (idx, un) stickers =
         Inr (credit sks idx, un @ filter (no_match (map fst idx)) stickers)"
proof -
  have "\<And>s. s \<in> set stickers \<Longrightarrow> sticker_key s = Inr (projr (sticker_key s))"
    by (rule map_Inr_fun(1) [OF assms(2)])
  from match_stickers_closed [OF assms(1) this, of stickers un]
  show ?thesis
    by (simp add: map_Inr_fun(2) [OF assms(2)])
qed

lemma find_split:
  "find P xs = Some x \<Longrightarrow> \<exists>pre post. xs = pre @ x # post \<and> P x \<and> (\<forall>y \<in> set pre. \<not> P y)"
proof (induction xs)
  case Nil
  then show ?case by simp
next
  case (Cons a xs)
  show ?case
  proof (cases "P a")
    case True
    with Cons.prems have "a = x" by simp
    with True have "a # xs = [] @ x # xs \<and> P x \<and> (\<forall>y \<in> set []. \<not> P y)" by simp
    then show ?thesis by blast
  next
    case False
    with Cons.prems have "find P xs = Some x" by simp
    from Cons.IH [OF this] obtain pre post where p: "xs = pre @ x # post" "P x" "\<forall>y \<in> set pre. \<not> P y"
      by blast
    with False have "a # xs = (a # pre) @ x # post \<and> P x \<and> (\<forall>y \<in> set (a # pre). \<not> P y)" by simp
    then show ?thesis by blast
  qed
qed

text \<open>
  C1. A sticker that is a record is matched with its trimmed style (not case-folded) and
  its trimmed and uppercased \<^verbatim>\<open>code_size\<close>. One pass of the loop body credits the first
  key, in the order of the index, whose description starts with the style and whose
  size equals the size: that key's \<open>received\<close> grows by 1 and nothing else changes; a
  sticker that matches no key is appended to the unmatched list and the index is left
  alone. Over a whole sequence of records, every key has received one unit for each
  sticker whose first match it is, and the unmatched list has grown by the stickers
  without a match, in input order.
\<close>

theorem stickers_first_match:
  "(sticker_key sticker = Inr sk \<longrightarrow>
      match_step (idx, un) sticker =
        Inr (case first_match (map fst idx) sk of
               None \<Rightarrow> (idx, un @ [sticker])
             | Some k \<Rightarrow> (modify k (\<lambda>c. c\<lparr>received := received c + 1\<rparr>) idx, un)))
   \<and> (distinct (map fst idx) \<and> map sticker_key stickers = map Inr sks \<longrightarrow>
        match_stickers (idx, un) stickers =
          Inr (credit sks idx, un @ filter (no_match (map fst idx)) stickers))
   \<and> sticker_key (JObj f) =
         Inr (strip (py_str (dict_get f ''style'' (JStr []))),
              upper (strip (py_str (dict_get f ''code_size'' (JStr [])))))
   \<and> (first_match ks sk = Some k \<longleftrightarrow>
         (\<exists>pre post. ks = pre @ k # post \<and> matches sk k \<and> (\<forall>k' \<in> set pre. \<not> matches sk k')))
   \<and> (first_match ks sk = None \<longleftrightarrow> (\<forall>k \<in> set ks. \<not> matches sk k))
   \<and> (matches (style, sz) (description, ksz) \<longleftrightarrow> startswith description style \<and> ksz = sz)"
proof -
  have a: "first_match ks sk = Some k \<longleftrightarrow>
         (\<exists>pre post. ks = pre @ k # post \<and> matches sk k \<and> (\<forall>k' \<in> set pre. \<not> matches sk k'))"
  proof
    assume "first_match ks sk = Some k"
    then show "\<exists>pre post. ks = pre @ k # post \<and> matches sk k \<and> (\<forall>k' \<in> set pre. \<not> matches sk k')"
      unfolding first_match_def by (rule find_split)
  next
    assume "\<exists>pre post. ks = pre @ k # post \<and> matches sk k \<and> (\<forall>k' \<in> set pre. \<not> matches sk k')"
    then obtain pre post where p: "ks = pre @ k # post" "matches sk k" "\<forall>k' \<in> set pre. \<not> matches sk k'"
      by blast
    have "find (matches sk) (pre @ k # post) = Some k"
      using p(2,3) by (induction pre) auto
    then show "first_match ks sk = Some k"
      by (simp add: first_match_def p(1))
  qed
  have b: "first_match ks sk = None \<longleftrightarrow> (\<forall>k \<in> set ks. \<not> matches sk k)"
    by (auto simp: first_match_def find_None_iff)
  have c: "matches (style, sz) (description, ksz) \<longleftrightarrow> startswith description style \<and> ksz = sz"
    by (simp add: matches_def)
  show ?thesis
    using match_step_find [of sticker sk idx un] match_stickers_list [of idx stickers sks un]
      sticker_key_record [of f] a b c
    by (intro conjI impI) simp_all
qed


theorem stickers_first_match_witness:
  "distinct (map fst
     [((''Men's Shirt'', ''M''), \<lparr>expected = 2, received = 0\<rparr>),
      ((''Men's Shorts'', ''M''), \<lparr>expected = 1, received = 0\<rparr>),
      ((''Women's Top'', ''S''), \<lparr>expected = 1, received = 0\<rparr>)])
   \<and> map sticker_key
        [JObj [(''style'', JStr ''Men's''), (''code_size'', JStr '' m '')],
         JObj [(''style'', JStr ''men's''), (''code_size'', JStr ''M'')],
         JObj [(''style'', JStr '' Men's Sho''), (''code_size'', JStr ''M'')],
         JObj [(''style'', JStr ''Men's''), (''code_size'', JStr ''M'')]]
       = map Inr [(''Men's'', ''M''), (''men's'', ''M''), (''Men's Sho'', ''M''), (''Men's'', ''M'')]
   \<and> match_stickers
        ([((''Men's Shirt'', ''M''), \<lparr>expected = 2, received = 0\<rparr>),
          ((''Men's Shorts'', ''M''), \<lparr>expected = 1, received = 0\<rparr>),
          ((''Women's Top'', ''S''), \<lparr>expected = 1, received = 0\<rparr>)], [])
        [JObj [(''style'', JStr ''Men's''), (''code_size'', JStr '' m '')],
         JObj [(''style'', JStr ''men's''), (''code_size'', JStr ''M'')],
         JObj [(''style'', JStr '' Men's Sho''), (''code_size'', JStr ''M'')],
         JObj [(''style'', JStr ''Men's''), (''code_size'', JStr ''M'')]]
       = Inr ([((''Men's Shirt'', ''M''), \<lparr>expected = 2, received = 2\<rparr>),
               ((''Men's Shorts'', ''M''), \<lparr>expected = 1, received = 1\<rparr>),
               ((''Women's Top'', ''S''), \<lparr>expected = 1, received = 0\<rparr>)],
              [JObj [(''style'', JStr ''men's''), (''code_size'', JStr ''M'')]])"
proof -
  let ?idx = "[((''Men's Shirt'', ''M''), \<lparr>expected = 2, received = 0\<rparr>),
      ((''Men's Shorts'', ''M''), \<lparr>expected = 1, received = 0\<rparr>),
      ((''Women's Top'', ''S''), \<lparr>expected = 1, received = 0\<rparr>)]"
  let ?ss = "[JObj [(''style'', JStr ''Men's''), (''code_size'', JStr '' m '')],
         JObj [(''style'', JStr ''men's''), (''code_size'', JStr ''M'')],
         JObj [(''style'', JStr '' Men's Sho''), (''code_size'', JStr ''M'')],
         JObj [(''style'', JStr ''Men's''), (''code_size'', JStr ''M'')]]"
  let ?sks = "[(''Men's'', ''M''), (''men's'', ''M''), (''Men's Sho'', ''M''), (''Men's'', ''M'')]"
  have d: "distinct (map fst ?idx)"
    by code_simp
  have k: "map sticker_key ?ss = map Inr ?sks"
    by code_simp
  have m: "match_stickers (?idx, []) ?ss =
             Inr (credit ?sks ?idx, [] @ filter (no_match (map fst ?idx)) ?ss)"
    using stickers_first_match [of _ _ ?idx "[]" ?ss ?sks] d k by blast
  have c: "credit ?sks ?idx =
      [((''Men's Shirt'', ''M''), \<lparr>expected = 2, received = 2\<rparr>),
       ((''Men's Shorts'', ''M''), \<lparr>expected = 1, received = 1\<rparr>),
       ((''Women's Top'', ''S''), \<lparr>expected = 1, received = 0\<rparr>)]"
    by code_simp
  have u: "filter (no_match (map fst ?idx)) ?ss = [JObj [(''style'', JStr ''men's''), (''code_size'', JStr ''M'')]]"
    by code_simp
  show ?thesis
    using d k m unfolding c u by simp
qed

lemma sticker_key_D: "sticker_key s = Inr sk \<Longrightarrow> \<exists>f. s = JObj f"
  by (cases s) (simp_all add: sticker_key_def py_get_def)

lemma no_match_D: "no_match ks s \<Longrightarrow> \<exists>f. s = JObj f"
  by (cases "sticker_key s") (auto simp: no_match_def dest: sticker_key_D)

lemma unmatched_row_record:
  "unmatched_row (JObj f) =
     Inr \<lparr>Challan_Description = ''(UNMATCHED SCAN) '' @ py_str (dict_get f ''style'' (JStr [])),
          Size = dict_get f ''code_size'' (JStr []),
          Expected = 0, Received = 1, Variance = 1, Status = OVER\<rparr>"
  by (simp add: unmatched_row_def py_get_def)

lemma unmatched_rows_iff: "unmatched_rows un = Inr rs \<longleftrightarrow> map unmatched_row un = map Inr rs"
proof (induction un arbitrary: rs)
  case Nil
  show ?case by auto
next
  case (Cons s un)
  show ?case
  proof (cases "unmatched_row s")
    case (Inl e)
    then show ?thesis by (cases rs) auto
  next
    case r: (Inr r)
    show ?thesis
    proof (cases "unmatched_rows un")
      case (Inl e)
      then have "\<And>rs'. map unmatched_row un \<noteq> map Inr rs'"
        using Cons.IH by simp
      with r Inl show ?thesis by (cases rs) auto
    next
      case (Inr rs')
      then have "map unmatched_row un = map Inr rs'" using Cons.IH by simp
      with r Inr show ?thesis by (cases rs) (auto simp: inj_map_eq_map)
    qed
  qed
qed

lemma unmatched_rows_records:
  assumes "\<And>s. s \<in> set un \<Longrightarrow> \<exists>f. s = JObj f"
  shows "\<exists>rs. unmatched_rows un = Inr rs"
proof -
  have "\<And>s. s \<in> set un \<Longrightarrow> \<exists>r. unmatched_row s = Inr r"
    using assms unmatched_row_record by metis
  then have "map unmatched_row un = map Inr (map (\<lambda>s. projr (unmatched_row s)) un)"
    by (rule map_Inr_ex)
  then show ?thesis
    using unmatched_rows_iff by blast
qed

lemma run_report:
  assumes "run_reconciliation st = Inr (Report rows)"
  shows "\<exists>ls ks qs sks rs.
           challan_lines (challan_data st) = Inr ls \<and>
           map line_key ls = map Inr ks \<and> map line_qty ls = map Inr qs \<and>
           map sticker_key (scanned_stickers st) = map Inr sks \<and>
           map unmatched_row (filter (no_match (first_seen ks)) (scanned_stickers st)) = map Inr rs \<and>
           rows = map key_row (credit sks (index_of ks qs)) @ rs"
proof -
  from run_Report_D [OF assms] obtain ls idx idx' un rs where
    ls: "challan_lines (challan_data st) = Inr ls" and idx: "build_index [] ls = Inr idx"
    and m: "match_stickers (idx, []) (scanned_stickers st) = Inr (idx', un)"
    and rs: "unmatched_rows un = Inr rs" and rows: "rows = map key_row idx' @ rs"
    by blast
  from idx obtain ks qs where k: "map line_key ls = map Inr ks" and q: "map line_qty ls = map Inr qs"
    and i: "idx = index_of ks qs"
    unfolding build_index_iff by blast
  have "\<And>s. s \<in> set (scanned_stickers st) \<Longrightarrow> \<exists>sk. sticker_key s = Inr sk"
    using match_stickers_wf [OF m] by simp
  then have sk: "map sticker_key (scanned_stickers st) =
                 map Inr (map (\<lambda>s. projr (sticker_key s)) (scanned_stickers st))"
    by (rule map_Inr_ex)
  have d: "distinct (map fst idx)" by (simp add: i)
  from match_stickers_list [OF d sk, of "[]"] m
  have "idx' = credit (map (\<lambda>s. projr (sticker_key s)) (scanned_stickers st)) idx"
    and "un = filter (no_match (first_seen ks)) (scanned_stickers st)"
    by (simp_all add: i)
  with ls k q sk rs rows i show ?thesis
    unfolding unmatched_rows_iff by blast
qed

lemma example_run: "run_reconciliation example_session = Inr (Report example_report)"
  by code_simp

lemma key_row_fields:
  "Challan_Description (key_row kc) = fst (fst kc)"
  "Size (key_row kc) = JStr (snd (fst kc))"
  "Expected (key_row kc) = expected (snd kc)"
  "Received (key_row kc) = received (snd kc)"
  "Variance (key_row kc) = Received (key_row kc) - Expected (key_row kc)"
  "Status (key_row kc) =
     (if Variance (key_row kc) = 0 then MATCH
      else if Variance (key_row kc) < 0 then SHORT else OVER)"
  by (simp_all add: key_row_def Let_def)

lemma length_credit [simp]: "length (credit sks idx) = length idx"
  by (simp add: credit_def)

lemma length_index_of [simp]: "length (index_of ks qs) = length (first_seen ks)"
  by (simp add: index_of_def)

lemma credit_index_of:
  "credit sks (index_of ks qs) =
     map (\<lambda>k. (k, \<lparr>expected = qty_total ks qs k, received = credited (first_seen ks) sks k\<rparr>))
         (first_seen ks)"
  by (simp add: credit_def index_of_def comp_def)

text \<open>
  C3. The report of a successful run starts with one row for each key of the expected
  index, in the first-seen order of the keys among the challan's lines; every such row
  has \<open>Variance = Received - Expected\<close> and the status MATCH, SHORT or OVER for a
  variance that is zero, negative or positive. The rows after them are the rows of the
  unmatched stickers.
\<close>

theorem report_key_rows:
  assumes "run_reconciliation st = Inr (Report rows)"
  shows "\<exists>ls ks qs sks.
     challan_lines (challan_data st) = Inr ls \<and>
     map line_key ls = map Inr ks \<and> map line_qty ls = map Inr qs \<and>
     map sticker_key (scanned_stickers st) = map Inr sks \<and>
     length (first_seen ks) \<le> length rows \<and>
     map (\<lambda>r. (Challan_Description r, Size r)) (take (length (first_seen ks)) rows) =
       map (\<lambda>k. (fst k, JStr (snd k))) (first_seen ks) \<and>
     map Expected (take (length (first_seen ks)) rows) = map (qty_total ks qs) (first_seen ks) \<and>
     map Received (take (length (first_seen ks)) rows) =
       map (credited (first_seen ks) sks) (first_seen ks) \<and>
     (\<forall>r \<in> set (take (length (first_seen ks)) rows).
        Variance r = Received r - Expected r \<and>
        Status r = (if Variance r = 0 then MATCH else if Variance r < 0 then SHORT else OVER)) \<and>
     map unmatched_row (filter (no_match (first_seen ks)) (scanned_stickers st)) =
       map Inr (drop (length (first_seen ks)) rows)"
proof -
  from run_report [OF assms] obtain ls ks qs sks rs where
    ls: "challan_lines (challan_data st) = Inr ls"
    and k: "map line_key ls = map Inr ks" and q: "map line_qty ls = map Inr qs"
    and sk: "map sticker_key (scanned_stickers st) = map Inr sks"
    and u: "map unmatched_row (filter (no_match (first_seen ks)) (scanned_stickers st)) = map Inr rs"
    and rows: "rows = map key_row (credit sks (index_of ks qs)) @ rs"
    by blast
  let ?n = "length (first_seen ks)"
  let ?kr = "map key_row (credit sks (index_of ks qs))"
  have n: "length ?kr = ?n" by simp
  have t: "take ?n rows = ?kr" and d: "drop ?n rows = rs"
    using n by (simp_all add: rows)
  have le: "?n \<le> length rows" by (simp add: rows)
  have c1: "map (\<lambda>r. (Challan_Description r, Size r)) ?kr = map (\<lambda>k. (fst k, JStr (snd k))) (first_seen ks)"
    by (simp add: credit_index_of comp_def key_row_fields)
  have c2: "map Expected ?kr = map (qty_total ks qs) (first_seen ks)"
    by (simp add: credit_index_of comp_def key_row_fields)
  have c3: "map Received ?kr = map (credited (first_seen ks) sks) (first_seen ks)"
    by (simp add: credit_index_of comp_def key_row_fields)
  have c4: "\<forall>r \<in> set ?kr. Variance r = Received r - Expected r \<and>
        Status r = (if Variance r = 0 then MATCH else if Variance r < 0 then SHORT else OVER)"
    using key_row_fields(5,6) by auto
  show ?thesis
    apply (rule exI [of _ ls], rule exI [of _ ks], rule exI [of _ qs], rule exI [of _ sks])
    using ls k q sk le c1 c2 c3 c4 u unfolding t d
    apply (intro conjI)
    apply assumption+
    done
qed

theorem report_key_rows_witness:
  "run_reconciliation example_session = Inr (Report example_report) \<and>
   (\<exists>ks. map (\<lambda>r. (Challan_Description r, Size r)) (take (length (first_seen ks)) example_report) =
           map (\<lambda>k. (fst k, JStr (snd k))) (first_seen ks) \<and>
         (\<forall>r \<in> set (take (length (first_seen ks)) example_report).
            Variance r = Received r - Expected r \<and>
            Status r = (if Variance r = 0 then MATCH else if Variance r < 0 then SHORT else OVER)) \<and>
         map unmatched_row (filter (no_match (first_seen ks)) (scanned_stickers example_session)) =
           map Inr (drop (length (first_seen ks)) example_report))"
proof -
  have h: "run_reconciliation example_session = Inr (Report example_report)"
    by code_simp
  from report_key_rows [OF h] h show ?thesis
    by blast
qed

lemma first_match_mem: "first_match ks sk = Some k \<Longrightarrow> k \<in> set ks"
  unfolding first_match_def by (auto dest: find_split)

lemma indicator_sum:
  "distinct ks \<Longrightarrow>
   (\<Sum>k\<leftarrow>ks. (if x = Some k then 1 else 0 :: int)) = (if x \<in> Some ` set ks then 1 else 0)"
  by (induction ks) auto

lemma credited_sum:
  assumes "distinct ks"
  shows "(\<Sum>k\<leftarrow>ks. credited ks sks k) = int (length (filter (\<lambda>sk. first_match ks sk \<noteq> None) sks))"
proof (induction sks)
  case Nil
  show ?case by (simp add: credited_def)
next
  case (Cons sk sks)
  have "(\<Sum>k\<leftarrow>ks. credited ks (sk # sks) k) =
        (\<Sum>k\<leftarrow>ks. (if first_match ks sk = Some k then 1 else 0)) + (\<Sum>k\<leftarrow>ks. credited ks sks k)"
    by (simp add: credited_Cons sum_list_addf)
  also have "(\<Sum>k\<leftarrow>ks. (if first_match ks sk = Some k then 1 else 0 :: int)) =
             (if first_match ks sk \<noteq> None then 1 else 0)"
    using indicator_sum [OF assms, of "first_match ks sk"] first_match_mem [of ks sk]
    by (cases "first_match ks sk") auto
  finally show ?case
    using Cons.IH by simp
qed

lemma matched_count:
  assumes "map sticker_key ss = map Inr sks"
  shows "length (filter (\<lambda>sk. first_match ks sk \<noteq> None) sks) =
         length (filter (\<lambda>s. \<not> no_match ks s) ss)"
proof -
  have e: "\<And>s. s \<in> set ss \<Longrightarrow> sticker_key s = Inr (projr (sticker_key s))"
    by (rule map_Inr_fun(1) [OF assms])
  have n: "\<And>s. s \<in> set ss \<Longrightarrow> no_match ks s = (first_match ks (projr (sticker_key s)) = None)"
  proof -
    fix s assume "s \<in> set ss"
    from e [OF this] obtain sk where sk: "sticker_key s = Inr sk" ..
    show "no_match ks s = (first_match ks (projr (sticker_key s)) = None)"
      by (simp add: no_match_def sk)
  qed
  have "filter (\<lambda>sk. first_match ks sk \<noteq> None) (map (\<lambda>s. projr (sticker_key s)) ss) =
        map (\<lambda>s. projr (sticker_key s)) (filter (\<lambda>s. \<not> no_match ks s) ss)"
    unfolding filter_map comp_def
    by (intro arg_cong [where f = "map _"] filter_cong refl) (simp add: n)
  then show ?thesis
    unfolding map_Inr_fun(2) [OF assms] by (metis length_map)
qed

lemma received_key_rows:
  assumes "map sticker_key ss = map Inr sks"
  shows "sum_list (map Received (map key_row (credit sks (index_of ks qs)))) =
         int (length (filter (\<lambda>s. \<not> no_match (first_seen ks) s) ss))"
proof -
  have "map Received (map key_row (credit sks (index_of ks qs))) =
        map (credited (first_seen ks) sks) (first_seen ks)"
    by (simp add: credit_index_of comp_def key_row_fields)
  then show ?thesis
    using credited_sum [of "first_seen ks" sks] matched_count [OF assms, of "first_seen ks"]
    by simp
qed


lemma unmatched_rows_nth:
  assumes "map unmatched_row un = map Inr rs" and "i < length un"
  shows "\<exists>f. un ! i = JObj f \<and>
           rs ! i = \<lparr>Challan_Description = ''(UNMATCHED SCAN) '' @ py_str (dict_get f ''style'' (JStr [])),
                     Size = dict_get f ''code_size'' (JStr []),
                     Expected = 0, Received = 1, Variance = 1, Status = OVER\<rparr>"
proof -
  have len: "length un = length rs" using assms(1) by (metis length_map)
  have r: "unmatched_row (un ! i) = Inr (rs ! i)"
    using assms len by (metis nth_map)
  then obtain f where f: "un ! i = JObj f"
    by (cases "un ! i") (simp_all add: unmatched_row_def py_get_def)
  with r show ?thesis
    by (simp add: unmatched_row_record)
qed

lemma unmatched_rows_received:
  "map unmatched_row un = map Inr rs \<Longrightarrow> sum_list (map Received rs) = int (length un)"
proof (induction un arbitrary: rs)
  case Nil
  then show ?case by simp
next
  case (Cons s un)
  then obtain r rs' where rs: "rs = r # rs'" "unmatched_row s = Inr r" "map unmatched_row un = map Inr rs'"
    by (cases rs) auto
  from rs(2) have "Received r = 1"
    by (auto simp: unmatched_row_def split: sum.splits)
  with Cons.IH [OF rs(3)] rs(1) show ?case by simp
qed

text \<open>
  C4. In the report of a successful run, the rows after the key rows are the rows of the
  unmatched stickers (the records that match no key), one each and in scan order: the
  description is the marker \<^verbatim>\<open>(UNMATCHED SCAN) \<close> followed by the sticker's style, the size
  is the sticker's \<^verbatim>\<open>code_size\<close> as it stands, Expected is 0, Received and Variance are 1
  and the status is OVER. The key rows' Received column counts the other stickers only.
\<close>

theorem report_unmatched_rows:
  assumes "run_reconciliation st = Inr (Report rows)"
  shows "\<exists>ls ks un.
     challan_lines (challan_data st) = Inr ls \<and> map line_key ls = map Inr ks \<and>
     un = filter (no_match (first_seen ks)) (scanned_stickers st) \<and>
     length rows = length (first_seen ks) + length un \<and>
     (\<forall>i < length un. \<exists>f.
        un ! i = JObj f \<and>
        rows ! (length (first_seen ks) + i) =
          \<lparr>Challan_Description = ''(UNMATCHED SCAN) '' @ py_str (dict_get f ''style'' (JStr [])),
           Size = dict_get f ''code_size'' (JStr []),
           Expected = 0, Received = 1, Variance = 1, Status = OVER\<rparr>) \<and>
     sum_list (map Received (take (length (first_seen ks)) rows)) =
       int (length (filter (\<lambda>s. \<not> no_match (first_seen ks) s) (scanned_stickers st)))"
proof -
  from run_report [OF assms] obtain ls ks qs sks rs where
    ls: "challan_lines (challan_data st) = Inr ls"
    and k: "map line_key ls = map Inr ks"
    and sk: "map sticker_key (scanned_stickers st) = map Inr sks"
    and u: "map unmatched_row (filter (no_match (first_seen ks)) (scanned_stickers st)) = map Inr rs"
    and rows: "rows = map key_row (credit sks (index_of ks qs)) @ rs"
    by blast
  let ?n = "length (first_seen ks)"
  let ?un = "filter (no_match (first_seen ks)) (scanned_stickers st)"
  let ?kr = "map key_row (credit sks (index_of ks qs))"
  have n: "length ?kr = ?n" by simp
  have lu: "length ?un = length rs" using u by (metis length_map)
  have len: "length rows = ?n + length ?un"
    by (simp add: rows lu)
  have nth: "\<And>i. rows ! (?n + i) = rs ! i"
    using n by (simp add: rows nth_append)
  have a: "\<forall>i < length ?un. \<exists>f.
        ?un ! i = JObj f \<and>
        rows ! (?n + i) =
          \<lparr>Challan_Description = ''(UNMATCHED SCAN) '' @ py_str (dict_get f ''style'' (JStr [])),
           Size = dict_get f ''code_size'' (JStr []),
           Expected = 0, Received = 1, Variance = 1, Status = OVER\<rparr>"
    using unmatched_rows_nth [OF u] unfolding nth by blast
  have t: "take ?n rows = ?kr" using n by (simp add: rows)
  have b: "sum_list (map Received (take ?n rows)) =
       int (length (filter (\<lambda>s. \<not> no_match (first_seen ks) s) (scanned_stickers st)))"
    unfolding t by (rule received_key_rows [OF sk])
  from ls k len a b show ?thesis by blast
qed

theorem report_unmatched_rows_witness:
  "run_reconciliation example_session = Inr (Report example_report) \<and>
   (\<exists>ks un.
     un = filter (no_match (first_seen ks)) (scanned_stickers example_session) \<and>
     length example_report = length (first_seen ks) + length un \<and>
     (\<forall>i < length un. \<exists>f.
        un ! i = JObj f \<and>
        example_report ! (length (first_seen ks) + i) =
          \<lparr>Challan_Description = ''(UNMATCHED SCAN) '' @ py_str (dict_get f ''style'' (JStr [])),
           Size = dict_get f ''code_size'' (JStr []),
           Expected = 0, Received = 1, Variance = 1, Status = OVER\<rparr>) \<and>
     sum_list (map Received (take (length (first_seen ks)) example_report)) =
       int (length (filter (\<lambda>s. \<not> no_match (first_seen ks) s) (scanned_stickers example_session))))"
proof -
  have h: "run_reconciliation example_session = Inr (Report example_report)"
    by code_simp
  from report_unmatched_rows [OF h] h show ?thesis
    by blast
qed

text \<open>
  C9. In the report of a successful run, the Received column adds up to the number of
  stickers scanned: every sticker is counted once, in the row of the key it matched or
  in a row of its own.
\<close>

theorem received_conservation:
  assumes "run_reconciliation st = Inr (Report rows)"
  shows "sum_list (map Received rows) = int (length (scanned_stickers st))"
proof -
  from run_report [OF assms] obtain ks qs sks rs where
    sk: "map sticker_key (scanned_stickers st) = map Inr sks"
    and u: "map unmatched_row (filter (no_match (first_seen ks)) (scanned_stickers st)) = map Inr rs"
    and rows: "rows = map key_row (credit sks (index_of ks qs)) @ rs"
    by blast
  have "sum_list (map Received rows) =
        int (length (filter (\<lambda>s. \<not> no_match (first_seen ks) s) (scanned_stickers st))) +
        int (length (filter (no_match (first_seen ks)) (scanned_stickers st)))"
    using received_key_rows [OF sk, of ks qs] unmatched_rows_received [OF u]
    by (simp add: rows)
  also have "\<dots> = int (length (scanned_stickers st))"
    using sum_length_filter_compl [of "no_match (first_seen ks)" "scanned_stickers st"]
    by linarith
  finally show ?thesis .
qed

theorem received_conservation_witness:
  "run_reconciliation example_session = Inr (Report example_report) \<and>
   sum_list (map Received example_report) = int (length (scanned_stickers example_session)) \<and>
   length (scanned_stickers example_session) = 6"
proof -
  have h: "run_reconciliation example_session = Inr (Report example_report)"
    by code_simp
  have l: "length (scanned_stickers example_session) = 6"
    by code_simp
  from received_conservation [OF h] h l show ?thesis
    by simp
qed

lemma run_NoChallan_iff:
  "run_reconciliation st = Inr NoChallan \<longleftrightarrow>
   (\<not> truthy (challan_data st) \<or> py_in ''lines'' (challan_data st) = Inr False)"
  by (simp add: run_reconciliation_def split: sum.splits bool.splits)

text \<open>
  C5. The run ends with the warning and no report exactly when the challan is falsy
  (\<^verbatim>\<open>None\<close>, an empty record) or \<^verbatim>\<open>'lines' in challan\<close> is false; for a challan that
  is a record, exactly when it is empty or has no \<^verbatim>\<open>lines\<close> key (a challan whose
  \<^verbatim>\<open>lines\<close> is the empty list gets an empty report). The stickers play no
  part: with such a challan the outcome is the same for every sticker sequence, also
  for one on which the matching loop would raise.
\<close>

theorem no_challan_precondition:
  "(run_reconciliation st = Inr NoChallan \<longleftrightarrow>
      (\<not> truthy (challan_data st) \<or> py_in ''lines'' (challan_data st) = Inr False))
   \<and> (challan_data st = JObj d \<longrightarrow>
        (run_reconciliation st = Inr NoChallan \<longleftrightarrow> d = [] \<or> ''lines'' \<notin> fst ` set d))
   \<and> (d = [] \<or> ''lines'' \<notin> fst ` set d \<longrightarrow>
        run_reconciliation \<lparr>challan_data = JObj d, scanned_stickers = ss, reconciliation_report = rr\<rparr>
          = Inr NoChallan)
   \<and> run_reconciliation \<lparr>challan_data = JNull, scanned_stickers = ss, reconciliation_report = rr\<rparr>
          = Inr NoChallan
   \<and> run_reconciliation \<lparr>challan_data = JObj [(''lines'', JArr [])], scanned_stickers = [],
                         reconciliation_report = rr\<rparr> = Inr (Report [])"
proof -
  have a: "challan_data st = JObj d \<Longrightarrow>
        (run_reconciliation st = Inr NoChallan \<longleftrightarrow> d = [] \<or> ''lines'' \<notin> fst ` set d)" for st d
    unfolding run_NoChallan_iff by (auto simp: truthy_def py_in_def)
  have b: "d = [] \<or> ''lines'' \<notin> fst ` set d \<Longrightarrow>
        run_reconciliation \<lparr>challan_data = JObj d, scanned_stickers = ss, reconciliation_report = rr\<rparr>
          = Inr NoChallan"
    using a [of "\<lparr>challan_data = JObj d, scanned_stickers = ss, reconciliation_report = rr\<rparr>" d]
    by simp
  have c: "run_reconciliation \<lparr>challan_data = JNull, scanned_stickers = ss, reconciliation_report = rr\<rparr>
          = Inr NoChallan"
    unfolding run_NoChallan_iff by (simp add: truthy_def)
  have e: "run_reconciliation \<lparr>challan_data = JObj [(''lines'', JArr [])], scanned_stickers = [],
                         reconciliation_report = rr\<rparr> = Inr (Report [])"
    by (simp add: run_reconciliation_def truthy_def py_in_def challan_lines_def py_get_def
          dict_get_def py_iter_def)
  show ?thesis
    using run_NoChallan_iff [of st] a [of st d] b c e by blast
qed

theorem no_challan_precondition_witness:
  "run_reconciliation \<lparr>challan_data = JObj [], scanned_stickers = [JInt 3],
                       reconciliation_report = None\<rparr> = Inr NoChallan
   \<and> run_reconciliation \<lparr>challan_data = JObj [(''challan_number'', JStr ''DC-17'')],
                         scanned_stickers = example_stickers,
                         reconciliation_report = None\<rparr> = Inr NoChallan
   \<and> run_reconciliation \<lparr>challan_data = example_challan, scanned_stickers = [JInt 3],
                         reconciliation_report = None\<rparr> = Inl AttributeError"
proof -
  have 1: "run_reconciliation \<lparr>challan_data = JObj [], scanned_stickers = [JInt 3],
                       reconciliation_report = None\<rparr> = Inr NoChallan"
    using no_challan_precondition [of _ "[]" "[JInt 3]" None] by blast
  have "''lines'' \<notin> fst ` set [(''challan_number'', JStr ''DC-17'')]"
    by simp
  then have 2: "run_reconciliation \<lparr>challan_data = JObj [(''challan_number'', JStr ''DC-17'')],
                         scanned_stickers = example_stickers,
                         reconciliation_report = None\<rparr> = Inr NoChallan"
    using no_challan_precondition [of _ "[(''challan_number'', JStr ''DC-17'')]" example_stickers None]
    by blast
  have 3: "run_reconciliation \<lparr>challan_data = example_challan, scanned_stickers = [JInt 3],
                         reconciliation_report = None\<rparr> = Inl AttributeError"
    by code_simp
  from 1 2 3 show ?thesis by blast
qed

lemma startswith_empty [simp]: "startswith s []"
  by (simp add: startswith_def)

lemma first_match_empty_style:
  "first_match ks ([], sz) = find (\<lambda>k. snd k = sz) ks"
  by (induction ks) (simp_all add: first_match_def matches_def)

lemma sticker_key_empty_style:
  assumes "map_of f ''style'' = None \<or> strip (py_str (dict_get f ''style'' (JStr []))) = []"
  shows "sticker_key (JObj f) = Inr ([], upper (strip (py_str (dict_get f ''code_size'' (JStr [])))))"
proof -
  have "strip (py_str (dict_get f ''style'' (JStr []))) = []"
    using assms by (auto simp: dict_get_def py_str_def strip_def)
  then show ?thesis by (simp add: sticker_key_record)
qed

text \<open>
  C10. A sticker without a style, or whose style trims to the empty string, is matched
  by size alone: the loop body credits the first key of the index, in order, whose size
  is the sticker's trimmed and uppercased \<^verbatim>\<open>code_size\<close>, and the sticker goes to the
  unmatched list only when no key of the index has that size.
\<close>

theorem empty_style_matches_by_size:
  "(sticker_key sticker = Inr ([], sz) \<longrightarrow>
      match_step (idx, un) sticker =
        Inr (case find (\<lambda>k. snd k = sz) (map fst idx) of
               None \<Rightarrow> (idx, un @ [sticker])
             | Some k \<Rightarrow> (modify k (\<lambda>c. c\<lparr>received := received c + 1\<rparr>) idx, un))
      \<and> (no_match (map fst idx) sticker \<longleftrightarrow> (\<forall>kc \<in> set idx. snd (fst kc) \<noteq> sz))
      \<and> (match_step (idx, un) sticker = Inr (idx, un @ [sticker]) \<longleftrightarrow> (\<forall>kc \<in> set idx. snd (fst kc) \<noteq> sz)))
   \<and> (map_of f ''style'' = None \<or> strip (py_str (dict_get f ''style'' (JStr []))) = [] \<longrightarrow>
        sticker_key (JObj f) =
          Inr ([], upper (strip (py_str (dict_get f ''code_size'' (JStr []))))))"
proof -
  have a: "match_step (idx, un) sticker =
        Inr (case find (\<lambda>k. snd k = sz) (map fst idx) of
               None \<Rightarrow> (idx, un @ [sticker])
             | Some k \<Rightarrow> (modify k (\<lambda>c. c\<lparr>received := received c + 1\<rparr>) idx, un))"
    if "sticker_key sticker = Inr ([], sz)"
    using match_step_find [OF that, of idx un] by (simp add: first_match_empty_style)
  have n: "find (\<lambda>k. snd k = sz) (map fst idx) = None \<longleftrightarrow> (\<forall>kc \<in> set idx. snd (fst kc) \<noteq> sz)"
    by (simp add: find_None_iff)
  have b: "no_match (map fst idx) sticker \<longleftrightarrow> (\<forall>kc \<in> set idx. snd (fst kc) \<noteq> sz)"
    if "sticker_key sticker = Inr ([], sz)"
    using that n by (simp add: no_match_def first_match_empty_style)
  have c: "match_step (idx, un) sticker = Inr (idx, un @ [sticker]) \<longleftrightarrow> (\<forall>kc \<in> set idx. snd (fst kc) \<noteq> sz)"
    if "sticker_key sticker = Inr ([], sz)"
  proof (cases "find (\<lambda>k. snd k = sz) (map fst idx)")
    case None
    then show ?thesis using a [OF that] n by simp
  next
    case (Some k)
    then show ?thesis using a [OF that] n by simp
  qed
  show ?thesis
    using a b c sticker_key_empty_style [of f] by blast
qed

theorem empty_style_matches_by_size_witness:
  "sticker_key (JObj [(''code_size'', JStr '' m '')]) = Inr ([], ''M'')
   \<and> match_step
        ([((''Women's Top'', ''S''), \<lparr>expected = 1, received = 0\<rparr>),
          ((''Men's Shirt'', ''M''), \<lparr>expected = 2, received = 0\<rparr>),
          ((''Boy's Cap'', ''M''), \<lparr>expected = 1, received = 0\<rparr>)], [])
        (JObj [(''code_size'', JStr '' m '')])
       = Inr ([((''Women's Top'', ''S''), \<lparr>expected = 1, received = 0\<rparr>),
               ((''Men's Shirt'', ''M''), \<lparr>expected = 2, received = 1\<rparr>),
               ((''Boy's Cap'', ''M''), \<lparr>expected = 1, received = 0\<rparr>)], [])"
proof -
  let ?idx = "[((''Women's Top'', ''S''), \<lparr>expected = 1, received = 0\<rparr>),
          ((''Men's Shirt'', ''M''), \<lparr>expected = 2, received = 0\<rparr>),
          ((''Boy's Cap'', ''M''), \<lparr>expected = 1, received = 0\<rparr>)]"
  have "map_of [(''code_size'', JStr '' m '')] ''style'' = None"
    by simp
  then have "sticker_key (JObj [(''code_size'', JStr '' m '')]) =
    Inr ([], upper (strip (py_str (dict_get [(''code_size'', JStr '' m '')] ''code_size'' (JStr [])))))"
    using empty_style_matches_by_size [of _ _ _ _ "[(''code_size'', JStr '' m '')]"] by blast
  moreover have "upper (strip (py_str (dict_get [(''code_size'', JStr '' m '')] ''code_size'' (JStr [])))) = ''M''"
    by code_simp
  ultimately have k: "sticker_key (JObj [(''code_size'', JStr '' m '')]) = Inr ([], ''M'')"
    by simp
  have "match_step (?idx, []) (JObj [(''code_size'', JStr '' m '')]) =
        Inr (case find (\<lambda>k. snd k = ''M'') (map fst ?idx) of
               None \<Rightarrow> (?idx, [] @ [JObj [(''code_size'', JStr '' m '')]])
             | Some k \<Rightarrow> (modify k (\<lambda>c. c\<lparr>received := received c + 1\<rparr>) ?idx, []))"
    using empty_style_matches_by_size [of "JObj [(''code_size'', JStr '' m '')]" "''M''" ?idx "[]"] k
    by blast
  with k show ?thesis by simp
qed

lemma is_record_iff: "is_record s \<longleftrightarrow> (\<exists>sk. sticker_key s = Inr sk)"
  by (cases s) (simp_all add: is_record_def sticker_key_def py_get_def)

lemma is_record_JObj: "is_record s \<longleftrightarrow> (\<exists>f. s = JObj f)"
  by (cases s) (simp_all add: is_record_def)

lemma py_add_zero_iff: "(\<exists>q. py_add 0 v = Inr q) \<longleftrightarrow> (\<exists>n. v = JInt n) \<or> (\<exists>b. v = JBool b)"
  by (cases v) (simp_all add: py_add_def)

lemma int_quantity_iff:
  "int_quantity l \<longleftrightarrow> (\<exists>k q. line_key l = Inr k \<and> line_qty l = Inr q)"
proof (cases l)
  case (JObj f)
  have k: "\<exists>k. line_key l = Inr k" by (simp add: JObj line_key_record)
  have "int_quantity l \<longleftrightarrow> (\<exists>q. py_add 0 (dict_get f ''qty_units_expected'' (JInt 0)) = Inr q)"
    unfolding py_add_zero_iff
    by (simp add: JObj int_quantity_def dict_get_def split: option.splits json.splits)
  also have "\<dots> \<longleftrightarrow> (\<exists>q. line_qty l = Inr q)"
    by (simp add: JObj line_qty_def py_get_def)
  finally show ?thesis using k by blast
qed (simp_all add: int_quantity_def line_key_def py_get_def)

lemma challan_with_lines:
  assumes "challan_data st = JObj d" and "map_of d ''lines'' = Some (JArr ls)"
  shows "truthy (challan_data st)" and "py_in ''lines'' (challan_data st) = Inr True"
    and "challan_lines (challan_data st) = Inr ls"
proof -
  from assms(2) have m: "''lines'' \<in> fst ` set d"
    by (metis map_of_eq_None_iff option.distinct(1))
  then have "d \<noteq> []" by auto
  then show "truthy (challan_data st)" by (simp add: assms(1) truthy_def)
  show "py_in ''lines'' (challan_data st) = Inr True"
    using m by (simp add: assms(1) py_in_def)
  show "challan_lines (challan_data st) = Inr ls"
    by (simp add: assms challan_lines_def py_get_def dict_get_def py_iter_def)
qed

lemma run_succeeds_iff:
  assumes "challan_data st = JObj d" and "map_of d ''lines'' = Some (JArr ls)"
  shows "(\<exists>rows. run_reconciliation st = Inr (Report rows)) \<longleftrightarrow>
         (\<forall>l \<in> set ls. int_quantity l) \<and> (\<forall>s \<in> set (scanned_stickers st). is_record s)"
proof
  assume "\<exists>rows. run_reconciliation st = Inr (Report rows)"
  then obtain rows where r: "run_reconciliation st = Inr (Report rows)" ..
  from run_report [OF r] obtain ls' ks qs sks where
    ls': "challan_lines (challan_data st) = Inr ls'"
    and k: "map line_key ls' = map Inr ks" and q: "map line_qty ls' = map Inr qs"
    and sk: "map sticker_key (scanned_stickers st) = map Inr sks"
    by blast
  have "ls' = ls" using ls' challan_with_lines(3) [OF assms] by simp
  have "\<forall>l \<in> set ls. int_quantity l"
    unfolding int_quantity_iff
    using map_Inr_fun(1) [OF k] map_Inr_fun(1) [OF q] \<open>ls' = ls\<close> by blast
  moreover have "\<forall>s \<in> set (scanned_stickers st). is_record s"
    unfolding is_record_iff using map_Inr_fun(1) [OF sk] by blast
  ultimately show "(\<forall>l \<in> set ls. int_quantity l) \<and> (\<forall>s \<in> set (scanned_stickers st). is_record s)" ..
next
  assume a: "(\<forall>l \<in> set ls. int_quantity l) \<and> (\<forall>s \<in> set (scanned_stickers st). is_record s)"
  have "\<And>l. l \<in> set ls \<Longrightarrow> \<exists>k. line_key l = Inr k"
    using a unfolding int_quantity_iff by blast
  then have k: "map line_key ls = map Inr (map (\<lambda>l. projr (line_key l)) ls)"
    by (rule map_Inr_ex)
  have "\<And>l. l \<in> set ls \<Longrightarrow> \<exists>q. line_qty l = Inr q"
    using a unfolding int_quantity_iff by blast
  then have q: "map line_qty ls = map Inr (map (\<lambda>l. projr (line_qty l)) ls)"
    by (rule map_Inr_ex)
  let ?ks = "map (\<lambda>l. projr (line_key l)) ls" and ?qs = "map (\<lambda>l. projr (line_qty l)) ls"
  have b: "build_index [] ls = Inr (index_of ?ks ?qs)"
    unfolding build_index_iff using k q by blast
  have "\<And>s. s \<in> set (scanned_stickers st) \<Longrightarrow> \<exists>sk. sticker_key s = Inr sk"
    using a unfolding is_record_iff by blast
  then have sk: "map sticker_key (scanned_stickers st) =
                 map Inr (map (\<lambda>s. projr (sticker_key s)) (scanned_stickers st))"
    by (rule map_Inr_ex)
  have d: "distinct (map fst (index_of ?ks ?qs))" by simp
  note m = match_stickers_list [OF d sk, of "[]"]
  have "\<And>s. s \<in> set ([] @ filter (no_match (map fst (index_of ?ks ?qs))) (scanned_stickers st))
          \<Longrightarrow> \<exists>f. s = JObj f"
    using a unfolding is_record_JObj by simp
  from unmatched_rows_records [OF this] obtain rs where
    rs: "unmatched_rows ([] @ filter (no_match (map fst (index_of ?ks ?qs))) (scanned_stickers st)) = Inr rs" ..
  from run_Report_I [OF challan_with_lines [OF assms] b m rs]
  show "\<exists>rows. run_reconciliation st = Inr (Report rows)" ..
qed


lemma line_key_missing:
  "map_of f ''material_description'' = None \<Longrightarrow> \<exists>z. line_key (JObj f) = Inr ([], z)"
  "map_of f ''size'' = None \<Longrightarrow> \<exists>d. line_key (JObj f) = Inr (d, [])"
  by (simp_all add: line_key_record dict_get_def py_str_def strip_def upper_def)

lemma sticker_key_missing:
  "map_of f ''style'' = None \<Longrightarrow> \<exists>z. sticker_key (JObj f) = Inr ([], z)"
  "map_of f ''code_size'' = None \<Longrightarrow> \<exists>d. sticker_key (JObj f) = Inr (d, [])"
  by (simp_all add: sticker_key_record dict_get_def py_str_def strip_def upper_def)

lemma non_numeric_not_int: "non_numeric_quantity l \<Longrightarrow> \<not> int_quantity l"
  by (auto simp: non_numeric_quantity_def int_quantity_def split: json.splits option.splits)

lemma not_record_not_int: "\<not> is_record l \<Longrightarrow> \<not> int_quantity l"
  by (auto simp: is_record_def int_quantity_def split: json.splits)

lemma run_raises:
  assumes "challan_data st = JObj d" and "map_of d ''lines'' = Some (JArr ls)"
    and "(\<exists>l \<in> set ls. \<not> is_record l \<or> non_numeric_quantity l) \<or>
         (\<exists>s \<in> set (scanned_stickers st). \<not> is_record s)"
  shows "\<exists>e. run_reconciliation st = Inl e"
proof -
  have "\<not> ((\<forall>l \<in> set ls. int_quantity l) \<and> (\<forall>s \<in> set (scanned_stickers st). is_record s))"
    using assms(3) non_numeric_not_int not_record_not_int by blast
  then have n: "\<not> (\<exists>rows. run_reconciliation st = Inr (Report rows))"
    using run_succeeds_iff [OF assms(1,2)] by simp
  have "run_reconciliation st \<noteq> Inr NoChallan"
    unfolding run_NoChallan_iff using challan_with_lines(1,2) [OF assms(1,2)] by simp
  with n show ?thesis
    by (cases "run_reconciliation st") (auto intro: outcome.exhaust)
qed

lemma line_qty_int:
  "map_of f ''qty_units_expected'' = Some (JInt n) \<Longrightarrow> line_qty (JObj f) = Inr n"
  "map_of f ''qty_units_expected'' = Some (JBool b) \<Longrightarrow> line_qty (JObj f) = Inr (if b then 1 else 0)"
  by (simp_all add: line_qty_def py_get_def dict_get_def py_add_def)

text \<open>
  C6, as the code has it. For a challan that is a record whose \<^verbatim>\<open>lines\<close> is a list, the
  run returns a report when every line is a record whose quantity is absent, an integer
  or a boolean and every sticker is a record. It raises an exception, and returns
  nothing, when a line or a sticker is not a record or when the quantity of a line is
  \<^verbatim>\<open>None\<close>, a string, a list or a record: such a quantity is not counted as 0. A missing
  quantity counts as 0, an integer as itself, \<^verbatim>\<open>False\<close> as 0 and \<^verbatim>\<open>True\<close> as 1; a missing
  description, size, style or \<^verbatim>\<open>code_size\<close> counts as the empty string. Nothing is said
  of a quantity that is a floating-point number: the values of this development have
  none.
\<close>

theorem run_succeeds_on_records:
  "(challan_data st = JObj d \<and> map_of d ''lines'' = Some (JArr ls) \<longrightarrow>
      ((\<forall>l \<in> set ls. int_quantity l) \<and> (\<forall>s \<in> set (scanned_stickers st). is_record s) \<longrightarrow>
         (\<exists>rows. run_reconciliation st = Inr (Report rows)))
      \<and> ((\<exists>l \<in> set ls. \<not> is_record l \<or> non_numeric_quantity l) \<or>
          (\<exists>s \<in> set (scanned_stickers st). \<not> is_record s) \<longrightarrow>
         (\<exists>e. run_reconciliation st = Inl e)))
   \<and> (map_of f ''qty_units_expected'' = None \<longrightarrow> line_qty (JObj f) = Inr 0)
   \<and> (map_of f ''qty_units_expected'' = Some (JInt n) \<longrightarrow> line_qty (JObj f) = Inr n)
   \<and> (map_of f ''qty_units_expected'' = Some (JBool b) \<longrightarrow>
        line_qty (JObj f) = Inr (if b then 1 else 0))
   \<and> (map_of f ''material_description'' = None \<longrightarrow> (\<exists>z. line_key (JObj f) = Inr ([], z)))
   \<and> (map_of f ''size'' = None \<longrightarrow> (\<exists>d. line_key (JObj f) = Inr (d, [])))
   \<and> (map_of f ''style'' = None \<longrightarrow> (\<exists>z. sticker_key (JObj f) = Inr ([], z)))
   \<and> (map_of f ''code_size'' = None \<longrightarrow> (\<exists>d. sticker_key (JObj f) = Inr (d, [])))"
proof -
  have 1: "challan_data st = JObj d \<and> map_of d ''lines'' = Some (JArr ls) \<longrightarrow>
      ((\<forall>l \<in> set ls. int_quantity l) \<and> (\<forall>s \<in> set (scanned_stickers st). is_record s) \<longrightarrow>
         (\<exists>rows. run_reconciliation st = Inr (Report rows)))
      \<and> ((\<exists>l \<in> set ls. \<not> is_record l \<or> non_numeric_quantity l) \<or>
          (\<exists>s \<in> set (scanned_stickers st). \<not> is_record s) \<longrightarrow>
         (\<exists>e. run_reconciliation st = Inl e))"
    using run_succeeds_iff [of st d ls] run_raises [of st d ls] by blast
  show ?thesis
    using 1 line_qty_missing [of f] line_qty_int [of f] line_key_missing [of f]
      sticker_key_missing [of f]
    by (intro conjI impI) blast+
qed


theorem run_succeeds_on_records_witness:
  "challan_data example_session = example_challan
   \<and> list_all int_quantity
        [JObj [(''material_description'', JStr ''Men's Shirt''), (''size'', JStr ''m ''),
               (''qty_units_expected'', JInt 1)],
         JObj [(''material_description'', JStr ''Women's Top''), (''size'', JStr ''S''),
               (''qty_units_expected'', JInt 2)],
         JObj [(''material_description'', JStr '' Men's Shirt''), (''size'', JStr ''M''),
               (''qty_units_expected'', JInt 1)],
         JObj [(''size'', JStr ''L'')]]
   \<and> list_all is_record (scanned_stickers example_session)
   \<and> (\<exists>rows. run_reconciliation example_session = Inr (Report rows))
   \<and> non_numeric_quantity (JObj [(''material_description'', JStr ''Men's Shirt''), (''size'', JStr ''M''),
                           (''qty_units_expected'', JStr ''5'')])
   \<and> (\<exists>e. run_reconciliation
              \<lparr>challan_data =
                 JObj [(''lines'',
                        JArr [JObj [(''material_description'', JStr ''Men's Shirt''),
                                    (''size'', JStr ''M''), (''qty_units_expected'', JStr ''5'')]])],
               scanned_stickers = [], reconciliation_report = None\<rparr> = Inl e)
   \<and> line_qty (JObj [(''size'', JStr ''L'')]) = Inr 0
   \<and> line_qty (JObj [(''qty_units_expected'', JInt 7)]) = Inr 7
   \<and> line_qty (JObj [(''qty_units_expected'', JBool True)]) = Inr 1
   \<and> (\<exists>z. line_key (JObj [(''size'', JStr ''L'')]) = Inr ([], z))
   \<and> (\<exists>d. line_key (JObj [(''material_description'', JStr ''Men's Shirt'')]) = Inr (d, []))
   \<and> (\<exists>z. sticker_key (JObj [(''code_size'', JStr ''L'')]) = Inr ([], z))
   \<and> (\<exists>d. sticker_key (JObj [(''style'', JStr ''Men'')]) = Inr (d, []))"
proof -
  let ?d = "[(''challan_number'', JStr ''DC-17''), (''date'', JNull),
           (''lines'', JArr
              [JObj [(''material_description'', JStr ''Men's Shirt''), (''size'', JStr ''m ''),
                     (''qty_units_expected'', JInt 1)],
               JObj [(''material_description'', JStr ''Women's Top''), (''size'', JStr ''S''),
                     (''qty_units_expected'', JInt 2)],
               JObj [(''material_description'', JStr '' Men's Shirt''), (''size'', JStr ''M''),
                     (''qty_units_expected'', JInt 1)],
               JObj [(''size'', JStr ''L'')]])]"
  let ?ls = "[JObj [(''material_description'', JStr ''Men's Shirt''), (''size'', JStr ''m ''),
                     (''qty_units_expected'', JInt 1)],
               JObj [(''material_description'', JStr ''Women's Top''), (''size'', JStr ''S''),
                     (''qty_units_expected'', JInt 2)],
               JObj [(''material_description'', JStr '' Men's Shirt''), (''size'', JStr ''M''),
                     (''qty_units_expected'', JInt 1)],
               JObj [(''size'', JStr ''L'')]]"
  let ?bad = "JObj [(''material_description'', JStr ''Men's Shirt''), (''size'', JStr ''M''),
                    (''qty_units_expected'', JStr ''5'')]"
  let ?st = "\<lparr>challan_data = JObj [(''lines'', JArr [?bad])],
             scanned_stickers = [], reconciliation_report = None\<rparr>"
  have c: "challan_data example_session = JObj ?d"
    by (simp add: example_session_def example_challan_def)
  have m: "map_of ?d ''lines'' = Some (JArr ?ls)"
    by simp
  have l: "list_all int_quantity ?ls"
    by code_simp
  have s: "list_all is_record (scanned_stickers example_session)"
    by code_simp
  from l s have "(\<forall>l \<in> set ?ls. int_quantity l) \<and> (\<forall>s \<in> set (scanned_stickers example_session). is_record s)"
    unfolding list_all_iff by blast
  with run_succeeds_on_records [of example_session ?d ?ls] c m
  have ok: "\<exists>rows. run_reconciliation example_session = Inr (Report rows)"
    by blast
  have t: "non_numeric_quantity ?bad"
    by code_simp
  have "challan_data ?st = JObj [(''lines'', JArr [?bad])]"
    and "map_of [(''lines'', JArr [?bad])] ''lines'' = Some (JArr [?bad])"
    by simp_all
  with run_succeeds_on_records [of ?st "[(''lines'', JArr [?bad])]" "[?bad]"] t
  have bad: "\<exists>e. run_reconciliation ?st = Inl e"
    by simp
  have q0: "line_qty (JObj [(''size'', JStr ''L'')]) = Inr 0"
    and k0: "\<exists>z. line_key (JObj [(''size'', JStr ''L'')]) = Inr ([], z)"
    using run_succeeds_on_records [where f = "[(''size'', JStr ''L'')]"] by simp_all
  have q7: "line_qty (JObj [(''qty_units_expected'', JInt 7)]) = Inr 7"
    using run_succeeds_on_records [where f = "[(''qty_units_expected'', JInt 7)]" and n = 7]
    by simp
  have q1: "line_qty (JObj [(''qty_units_expected'', JBool True)]) = Inr 1"
    using run_succeeds_on_records [where f = "[(''qty_units_expected'', JBool True)]" and b = True]
    by simp
  have k1: "\<exists>d. line_key (JObj [(''material_description'', JStr ''Men's Shirt'')]) = Inr (d, [])"
    using run_succeeds_on_records [where f = "[(''material_description'', JStr ''Men's Shirt'')]"]
    by simp
  have s0: "\<exists>z. sticker_key (JObj [(''code_size'', JStr ''L'')]) = Inr ([], z)"
    using run_succeeds_on_records [where f = "[(''code_size'', JStr ''L'')]"] by simp
  have s1: "\<exists>d. sticker_key (JObj [(''style'', JStr ''Men'')]) = Inr (d, [])"
    using run_succeeds_on_records [where f = "[(''style'', JStr ''Men'')]"] by simp
  from ok l s t bad q0 q7 q1 k0 k1 s0 s1 show ?thesis
    by (simp add: example_session_def)
qed

theorem quantity_string_raises:
  "truthy (JObj [(''lines'', JArr [JObj [(''material_description'', JStr ''Men's Shirt''),
                                         (''size'', JStr ''M''),
                                         (''qty_units_expected'', JStr ''5'')]])])
   \<and> py_in ''lines'' (JObj [(''lines'', JArr [JObj [(''material_description'', JStr ''Men's Shirt''),
                                                   (''size'', JStr ''M''),
                                                   (''qty_units_expected'', JStr ''5'')]])])
       = Inr True
   \<and> run_reconciliation
        \<lparr>challan_data = JObj [(''lines'', JArr [JObj [(''material_description'', JStr ''Men's Shirt''),
                                                      (''size'', JStr ''M''),
                                                      (''qty_units_expected'', JStr ''5'')]])],
         scanned_stickers = [], reconciliation_report = None\<rparr>
       = Inl TypeError"
  by code_simp

section \<open>The store: what a run writes\<close>

lemma kept_refl [simp]: "kept n h h"
  by (simp add: kept_def)

lemma kept_trans: "kept n h h' \<Longrightarrow> kept n h' h'' \<Longrightarrow> kept n h h''"
  by (auto simp: kept_def)

lemma kept_alloc: "n \<le> length h \<Longrightarrow> kept n h (snd (alloc ob h))"
  by (simp add: kept_def alloc_def nth_append)

lemma kept_write: "n \<le> a \<Longrightarrow> kept n h (h[a := ob])"
  by (simp add: kept_def)

lemma obj_at_Some: "obj_at h a = Some ob \<longleftrightarrow> a < length h \<and> h ! a = ob"
  by (auto simp: obj_at_def)

lemma counter_add_cases:
  assumes "counter_add e k field amount h = (h', res)"
  shows "h' = h \<or>
         (\<exists>ix c ob. obj_at h e = Some (PIndex ix) \<and> (k, PRef c) \<in> set ix \<and> c < length h \<and>
                     h' = h[c := PDict ob])"
proof -
  show ?thesis
    using assms
    by (auto simp: counter_add_def obj_at_Some split: option.splits pobj.splits pval.splits sum.splits
             dest: map_of_SomeD)
qed


lemma index_inv_mono: "index_inv n b e h \<Longrightarrow> b \<le> b' \<Longrightarrow> b' \<le> length h \<Longrightarrow> index_inv n b' e h"
  by (fastforce simp: index_inv_def)

lemma counter_add_inv:
  assumes "index_inv n b e h" and "counter_add e k field amount h = (h', res)"
  shows "kept n h h'" and "index_inv n b e h'" and "length h' = length h"
    and "\<And>a. b \<le> a \<Longrightarrow> h' ! a = h ! a"
proof -
  from counter_add_cases [OF assms(2)]
  consider "h' = h"
    | ix c ob where "obj_at h e = Some (PIndex ix)" "(k, PRef c) \<in> set ix" "c < length h" "h' = h[c := PDict ob]"
    by blast
  then have "kept n h h' \<and> index_inv n b e h' \<and> length h' = length h \<and> (\<forall>a. b \<le> a \<longrightarrow> h' ! a = h ! a)"
  proof cases
    case 1
    then show ?thesis using assms(1) by simp
  next
    case 2
    from assms(1) obtain ix' where e: "n \<le> e" "e < b" "b \<le> length h" "h ! e = PIndex ix'"
      and cs: "\<forall>kv \<in> set ix'. \<exists>c. snd kv = PRef c \<and> n \<le> c \<and> c < b \<and> c \<noteq> e"
      unfolding index_inv_def by blast
    from 2(1) e(4) have "ix' = ix" by (simp add: obj_at_Some)
    with cs 2(2) have c: "n \<le> c" "c < b" "c \<noteq> e" by fastforce+
    have k: "kept n h h'" unfolding 2(4) using c(1) by (rule kept_write)
    have "h' ! e = PIndex ix'" using c(3) e(4) by (simp add: 2(4))
    then have i: "index_inv n b e h'"
      unfolding index_inv_def using e cs by (simp add: 2(4))
    have "\<forall>a. b \<le> a \<longrightarrow> h' ! a = h ! a" using c(2) by (simp add: 2(4))
    with k i show ?thesis by (simp add: 2(4))
  qed
  then show "kept n h h'" and "index_inv n b e h'" and "length h' = length h"
    and "\<And>a. b \<le> a \<Longrightarrow> h' ! a = h ! a"
    by blast+
qed

lemma insert_key_inv:
  assumes "index_inv n (length h) e h" and "obj_at h e = Some (PIndex ix)"
  shows "index_inv n (Suc (length h)) e ((snd (alloc ob h))[e := PIndex (ix @ [(k, PRef (fst (alloc ob h)))])])"
    and "kept n h ((snd (alloc ob h))[e := PIndex (ix @ [(k, PRef (fst (alloc ob h)))])])"
proof -
  from assms(1) obtain ix' where e: "n \<le> e" "e < length h" "h ! e = PIndex ix'"
    and cs: "\<forall>kv \<in> set ix'. \<exists>c. snd kv = PRef c \<and> n \<le> c \<and> c < length h \<and> c \<noteq> e"
    unfolding index_inv_def by blast
  from assms(2) e(3) have [simp]: "ix' = ix" by (simp add: obj_at_Some)
  show "index_inv n (Suc (length h)) e ((snd (alloc ob h))[e := PIndex (ix @ [(k, PRef (fst (alloc ob h)))])])"
    unfolding index_inv_def alloc_def using e cs by (auto simp: less_Suc_eq)
  have "kept n h (snd (alloc ob h))" using e by (intro kept_alloc) simp
  moreover have "kept n (snd (alloc ob h)) ((snd (alloc ob h))[e := PIndex (ix @ [(k, PRef (fst (alloc ob h)))])])"
    using e(1) by (rule kept_write)
  ultimately show "kept n h ((snd (alloc ob h))[e := PIndex (ix @ [(k, PRef (fst (alloc ob h)))])])"
    by (rule kept_trans)
qed

lemma ensure_key_inv:
  assumes "index_inv n (length h) e h" and "ensure_key e k h = (h', res)"
  shows "kept n h h' \<and> index_inv n (length h') e h'"
proof (cases "\<exists>ix. obj_at h e = Some (PIndex ix)")
  case False
  then have "h' = h"
    using assms(2) by (auto simp: ensure_key_def split: option.splits pobj.splits)
  with assms(1) show ?thesis by simp
next
  case True
  then obtain ix where ix: "obj_at h e = Some (PIndex ix)" ..
  show ?thesis
  proof (cases "k \<in> set (map fst ix)")
    case True
    then have "h' = h" using assms(2) ix by (simp add: ensure_key_def)
    with assms(1) show ?thesis by simp
  next
    case False
    let ?ob = "PDict [(''expected'', PInt 0), (''received'', PInt 0)]"
    from False have eq: "h' = (snd (alloc ?ob h))[e := PIndex (ix @ [(k, PRef (fst (alloc ?ob h)))])]"
      using assms(2) ix by (simp add: ensure_key_def Let_def)
    have "length h' = Suc (length h)" by (simp add: eq alloc_def)
    then show ?thesis
      using insert_key_inv [OF assms(1) ix, of ?ob k] by (simp add: eq)
  qed
qed

lemma build_step_h_inv:
  assumes "index_inv n (length h) e h" and "build_step_h e line h = (h', res)"
  shows "kept n h h' \<and> index_inv n (length h') e h'"
proof (cases "line_key (jview h line)")
  case (Inl x)
  with assms show ?thesis by (simp add: build_step_h_def)
next
  case (Inr k)
  obtain h1 r1 where ek: "ensure_key e k h = (h1, r1)" by (cases "ensure_key e k h")
  from ensure_key_inv [OF assms(1) ek] have h1: "kept n h h1" "index_inv n (length h1) e h1" by simp_all
  show ?thesis
  proof (cases r1)
    case (Inl x)
    then have "h' = h1" using assms(2) Inr ek by (simp add: build_step_h_def)
    with h1 show ?thesis by simp
  next
    case r: (Inr w)
    show ?thesis
    proof (cases "py_get (jview h1 line) ''qty_units_expected'' (JInt 0)")
      case (Inl x)
      then have "h' = h1" using assms(2) Inr ek r by (simp add: build_step_h_def)
      with h1 show ?thesis by simp
    next
      case q: (Inr q)
      then have "counter_add e k ''expected'' q h1 = (h', res)"
        using assms(2) Inr ek r by (simp add: build_step_h_def)
      from counter_add_inv(1-3) [OF h1(2) this] h1
      show ?thesis by (auto intro: kept_trans)
    qed
  qed
qed

lemma build_index_h_inv:
  "index_inv n (length h) e h \<Longrightarrow> build_index_h e lines h = (h', res) \<Longrightarrow>
   kept n h h' \<and> index_inv n (length h') e h'"
proof (induction lines arbitrary: h)
  case Nil
  then show ?case by simp
next
  case (Cons line rest)
  obtain h1 r1 where s: "build_step_h e line h = (h1, r1)" by (cases "build_step_h e line h")
  from build_step_h_inv [OF Cons.prems(1) s] have 1: "kept n h h1" "index_inv n (length h1) e h1" by simp_all
  show ?case
  proof (cases r1)
    case (Inl x)
    with Cons.prems(2) s have "h' = h1" by simp
    with 1 show ?thesis by simp
  next
    case (Inr u)
    with Cons.prems(2) s have "build_index_h e rest h1 = (h', res)" by simp
    from Cons.IH [OF 1(2) this] 1(1) show ?thesis by (auto intro: kept_trans)
  qed
qed


lemma scan_keys_h_inv:
  "index_inv n b e h \<Longrightarrow> scan_keys_h e st sz ks h = (h', res) \<Longrightarrow>
   kept n h h' \<and> index_inv n b e h' \<and> length h' = length h \<and> (\<forall>a. b \<le> a \<longrightarrow> h' ! a = h ! a)"
proof (induction ks)
  case Nil
  then show ?case by simp
next
  case (Cons k ks)
  show ?case
  proof (cases "startswith (fst k) st \<and> snd k = sz")
    case False
    with Cons show ?thesis by simp
  next
    case True
    obtain h1 r1 where c: "counter_add e k ''received'' (JInt 1) h = (h1, r1)"
      by (cases "counter_add e k ''received'' (JInt 1) h")
    with True Cons.prems(2) have "h' = h1" by (cases r1) simp_all
    with counter_add_inv [OF Cons.prems(1) c] show ?thesis by simp
  qed
qed

lemma match_step_h_inv:
  assumes "index_inv n b e h" and "b \<le> u" and "match_step_h e u sticker h = (h', res)"
  shows "kept n h h' \<and> index_inv n b e h' \<and> length h' = length h"
proof (cases "sticker_key (jview h sticker)")
  case (Inl x)
  with assms show ?thesis by (simp add: match_step_h_def)
next
  case (Inr sk)
  show ?thesis
  proof (cases "\<exists>ix. obj_at h e = Some (PIndex ix)")
    case False
    then have "h' = h"
      using assms(3) Inr by (auto simp: match_step_h_def split: option.splits pobj.splits)
    with assms(1) show ?thesis by simp
  next
    case True
    then obtain ix where ix: "obj_at h e = Some (PIndex ix)" ..
    obtain h1 r1 where s: "scan_keys_h e (fst sk) (snd sk) (map fst ix) h = (h1, r1)"
      by (cases "scan_keys_h e (fst sk) (snd sk) (map fst ix) h")
    from scan_keys_h_inv [OF assms(1) s]
    have 1: "kept n h h1" "index_inv n b e h1" "length h1 = length h" by simp_all
    from assms(1,2) have nu: "n \<le> u" "e \<noteq> u" by (auto simp: index_inv_def)
    have "h' = h1 \<or> (\<exists>ob. h' = h1[u := ob])"
      using assms(3) Inr ix s
      by (auto simp: match_step_h_def split: sum.splits bool.splits option.splits pobj.splits)
    then show ?thesis
    proof
      assume "h' = h1"
      with 1 show ?thesis by simp
    next
      assume "\<exists>ob. h' = h1[u := ob]"
      then obtain ob where h': "h' = h1[u := ob]" ..
      have "kept n h1 h'" unfolding h' using nu(1) by (rule kept_write)
      with 1(1) have "kept n h h'" by (rule kept_trans)
      moreover have "index_inv n b e h'"
        using 1(2) nu(2) unfolding index_inv_def h' by simp
      ultimately show ?thesis using 1(3) by (simp add: h')
    qed
  qed
qed

lemma match_stickers_h_inv:
  "index_inv n b e h \<Longrightarrow> b \<le> u \<Longrightarrow> match_stickers_h e u svs h = (h', res) \<Longrightarrow>
   kept n h h' \<and> index_inv n b e h' \<and> length h' = length h"
proof (induction svs arbitrary: h)
  case Nil
  then show ?case by simp
next
  case (Cons sv svs)
  obtain h1 r1 where s: "match_step_h e u sv h = (h1, r1)" by (cases "match_step_h e u sv h")
  from match_step_h_inv [OF Cons.prems(1,2) s]
  have 1: "kept n h h1" "index_inv n b e h1" "length h1 = length h" by simp_all
  show ?case
  proof (cases r1)
    case (Inl x)
    with Cons.prems(3) s have "h' = h1" by simp
    with 1 show ?thesis by simp
  next
    case (Inr w)
    with Cons.prems(3) s have "match_stickers_h e u svs h1 = (h', res)" by simp
    from Cons.IH [OF 1(2) Cons.prems(2) this] 1 show ?thesis by (auto intro: kept_trans)
  qed
qed

lemma append_row_kept:
  assumes "n \<le> r" and "n \<le> length h" and "append_row r row h = (h', res)"
  shows "kept n h h'"
proof -
  have a: "kept n h (snd (alloc row h))" using assms(2) by (rule kept_alloc)
  have "h' = snd (alloc row h) \<or> (\<exists>ob. h' = (snd (alloc row h))[r := ob])"
    using assms(3) by (auto simp: append_row_def Let_def split: option.splits pobj.splits)
  then show ?thesis
    using a kept_write [OF assms(1), of "snd (alloc row h)"] by (auto intro: kept_trans)
qed

lemma key_row_h_kept:
  assumes "n \<le> r" and "n \<le> length h" and "key_row_h r kd h = (h', res)"
  shows "kept n h h'"
proof -
  have "h' = h \<or> (\<exists>row. append_row r row h = (h', res))"
    using assms(3)
    by (auto simp: key_row_h_def Let_def split: pval.splits option.splits pobj.splits)
  then show ?thesis
    using append_row_kept [OF assms(1,2)] by auto
qed

lemma unmatched_row_h_kept:
  assumes "n \<le> r" and "n \<le> length h" and "unmatched_row_h r sv h = (h', res)"
  shows "kept n h h'"
proof -
  have "h' = h \<or> (\<exists>row. append_row r row h = (h', res))"
    using assms(3) by (auto simp: unmatched_row_h_def split: sum.splits)
  then show ?thesis
    using append_row_kept [OF assms(1,2)] by auto
qed

lemma kept_length: "kept n h h' \<Longrightarrow> n \<le> length h \<Longrightarrow> n \<le> length h'"
  by (simp add: kept_def)

lemma key_rows_h_kept:
  "n \<le> r \<Longrightarrow> n \<le> length h \<Longrightarrow> key_rows_h r ix h = (h', res) \<Longrightarrow> kept n h h'"
proof (induction ix arbitrary: h)
  case Nil
  then show ?case by simp
next
  case (Cons kd ix)
  obtain h1 r1 where s: "key_row_h r kd h = (h1, r1)" by (cases "key_row_h r kd h")
  from key_row_h_kept [OF Cons.prems(1,2) s] have 1: "kept n h h1" .
  show ?case
  proof (cases r1)
    case (Inl x)
    with Cons.prems(3) s 1 show ?thesis by simp
  next
    case (Inr w)
    with Cons.prems(3) s have "key_rows_h r ix h1 = (h', res)" by simp
    from Cons.IH [OF Cons.prems(1) kept_length [OF 1 Cons.prems(2)] this] 1
    show ?thesis by (rule kept_trans [rotated])
  qed
qed

lemma unmatched_rows_h_kept:
  "n \<le> r \<Longrightarrow> n \<le> length h \<Longrightarrow> unmatched_rows_h r svs h = (h', res) \<Longrightarrow> kept n h h'"
proof (induction svs arbitrary: h)
  case Nil
  then show ?case by simp
next
  case (Cons sv svs)
  obtain h1 r1 where s: "unmatched_row_h r sv h = (h1, r1)" by (cases "unmatched_row_h r sv h")
  from unmatched_row_h_kept [OF Cons.prems(1,2) s] have 1: "kept n h h1" .
  show ?case
  proof (cases r1)
    case (Inl x)
    with Cons.prems(3) s 1 show ?thesis by simp
  next
    case (Inr w)
    with Cons.prems(3) s have "unmatched_rows_h r svs h1 = (h', res)" by simp
    from Cons.IH [OF Cons.prems(1) kept_length [OF 1 Cons.prems(2)] this] 1
    show ?thesis by (rule kept_trans [rotated])
  qed
qed


lemma report_h_kept:
  assumes "n \<le> length h" and "report_h e u h = (h', res)"
  shows "kept n h h'"
proof -
  let ?rh = "alloc (PList []) h"
  have r: "n \<le> fst ?rh" using assms(1) by (simp add: alloc_def)
  have k0: "kept n h (snd ?rh)" using assms(1) by (rule kept_alloc)
  have l0: "n \<le> length (snd ?rh)" using assms(1) by (simp add: alloc_def)
  show ?thesis
  proof (cases "\<exists>ix vs. obj_at (snd ?rh) e = Some (PIndex ix) \<and> obj_at (snd ?rh) u = Some (PList vs)")
    case False
    then have "h' = snd ?rh"
      using assms(2) by (auto simp: report_h_def Let_def split: option.splits pobj.splits)
    with k0 show ?thesis by simp
  next
    case True
    then obtain ix vs where o: "obj_at (snd ?rh) e = Some (PIndex ix)" "obj_at (snd ?rh) u = Some (PList vs)"
      by blast
    obtain h1 r1 where a: "key_rows_h (fst ?rh) ix (snd ?rh) = (h1, r1)"
      by (cases "key_rows_h (fst ?rh) ix (snd ?rh)")
    from key_rows_h_kept [OF r l0 a] have k1: "kept n (snd ?rh) h1" .
    show ?thesis
    proof (cases r1)
      case (Inl x)
      then have "h' = h1" using assms(2) o a by (simp add: report_h_def Let_def)
      with k0 k1 show ?thesis by (auto intro: kept_trans)
    next
      case (Inr w)
      obtain h2 r2 where b: "unmatched_rows_h (fst ?rh) vs h1 = (h2, r2)"
        by (cases "unmatched_rows_h (fst ?rh) vs h1")
      from unmatched_rows_h_kept [OF r kept_length [OF k1 l0] b] have k2: "kept n h1 h2" .
      have "h' = h2" using assms(2) o a Inr b by (cases r2) (simp_all add: report_h_def Let_def)
      with k0 k1 k2 show ?thesis by (auto intro: kept_trans)
    qed
  qed
qed

lemma index_inv_alloc:
  assumes "index_inv n (length h) e h"
  shows "index_inv n (length h) e (snd (alloc ob h))"
  using assms unfolding index_inv_def alloc_def by (auto simp: nth_append)

lemma match_h_kept:
  assumes "index_inv n (length h) e h" and "match_h e stickers h = (h', res)"
  shows "kept n h h'"
proof -
  let ?uh = "alloc (PList []) h"
  have n: "n \<le> length h" using assms(1) by (simp add: index_inv_def)
  have k0: "kept n h (snd ?uh)" using n by (rule kept_alloc)
  have i0: "index_inv n (length h) e (snd ?uh)" using assms(1) by (rule index_inv_alloc)
  have u: "length h \<le> fst ?uh" by (simp add: alloc_def)
  show ?thesis
  proof (cases "iter_h (snd ?uh) stickers")
    case (Inl x)
    then have "h' = snd ?uh" using assms(2) by (simp add: match_h_def Let_def)
    with k0 show ?thesis by simp
  next
    case (Inr svs)
    obtain h1 r1 where m: "match_stickers_h e (fst ?uh) svs (snd ?uh) = (h1, r1)"
      by (cases "match_stickers_h e (fst ?uh) svs (snd ?uh)")
    from match_stickers_h_inv [OF i0 u m] have k1: "kept n (snd ?uh) h1" by simp
    have l1: "n \<le> length h1" using k0 k1 n by (auto dest: kept_length)
    show ?thesis
    proof (cases r1)
      case (Inl x)
      then have "h' = h1" using assms(2) Inr m by (simp add: match_h_def Let_def)
      with k0 k1 show ?thesis by (auto intro: kept_trans)
    next
      case w: (Inr w)
      then have "report_h e (fst ?uh) h1 = (h', res)"
        using assms(2) Inr m by (simp add: match_h_def Let_def)
      from report_h_kept [OF l1 this] k0 k1 show ?thesis by (auto intro: kept_trans)
    qed
  qed
qed

lemma run_h_kept: "kept (length h) h (fst (run_h h challan stickers))"
proof (cases "truthy (jview h challan) \<and> py_in ''lines'' (jview h challan) = Inr True")
  case False
  then have "fst (run_h h challan stickers) = h"
    by (auto simp: run_h_def split: sum.splits bool.splits)
  then show ?thesis by simp
next
  case True
  let ?eh = "alloc (PIndex []) h"
  let ?dh = "alloc (PList []) (snd ?eh)"
  have i0: "index_inv (length h) (length (snd ?dh)) (fst ?eh) (snd ?dh)"
    by (simp add: index_inv_def alloc_def nth_append)
  have k0: "kept (length h) h (snd ?dh)"
    by (simp add: kept_def alloc_def nth_append)
  show ?thesis
  proof (cases "get_h (snd ?dh) challan ''lines'' (PRef (fst ?dh))")
    case (Inl x)
    then have "fst (run_h h challan stickers) = snd ?dh"
      using True by (simp add: run_h_def Let_def)
    with k0 show ?thesis by simp
  next
    case lv: (Inr lv)
    show ?thesis
    proof (cases "iter_h (snd ?dh) lv")
      case (Inl x)
      then have "fst (run_h h challan stickers) = snd ?dh"
        using True lv by (simp add: run_h_def Let_def)
      with k0 show ?thesis by simp
    next
      case (Inr lines)
      obtain h1 r1 where b: "build_index_h (fst ?eh) lines (snd ?dh) = (h1, r1)"
        by (cases "build_index_h (fst ?eh) lines (snd ?dh)")
      from build_index_h_inv [OF i0 b]
      have 1: "kept (length h) (snd ?dh) h1" "index_inv (length h) (length h1) (fst ?eh) h1" by simp_all
      show ?thesis
      proof (cases r1)
        case (Inl x)
        then have "fst (run_h h challan stickers) = h1"
          using True lv Inr b by (simp add: run_h_def Let_def)
        with k0 1(1) show ?thesis by (auto intro: kept_trans)
      next
        case w: (Inr w)
        obtain h2 r2 where m: "match_h (fst ?eh) stickers h1 = (h2, r2)"
          by (cases "match_h (fst ?eh) stickers h1")
        have "fst (run_h h challan stickers) = h2"
          using True lv Inr b w m by (simp add: run_h_def Let_def)
        with match_h_kept [OF 1(2) m] k0 1(1) show ?thesis by (auto intro: kept_trans)
      qed
    qed
  qed
qed

lemma kept_prefix: "kept (length h) h h' \<Longrightarrow> h' = h @ drop (length h) h'"
proof -
  assume k: "kept (length h) h h'"
  then have "take (length h) h' = h"
    by (intro nth_equalityI) (simp_all add: kept_def)
  then show ?thesis by (metis append_take_drop_id)
qed

lemma run_h_extends: "\<exists>new. fst (run_h h challan stickers) = h @ new"
  using kept_prefix [OF run_h_kept] by blast

lemma get_h_kept:
  assumes "kept n h0 h" and "n \<le> length h0" and "\<And>s. sv = PRef s \<Longrightarrow> s < n"
  shows "get_h h sv k d = get_h h0 sv k d"
proof (cases sv)
  case (PRef s)
  with assms(3) have "s < n" by simp
  with assms(1,2) have "obj_at h s = obj_at h0 s"
    by (simp add: obj_at_def kept_def)
  then show ?thesis by (simp add: get_h_def PRef)
qed (simp_all add: get_h_def)

lemma iter_h_kept:
  assumes "kept (length h0) h0 h" and "iter_h h0 v = Inr svs"
  shows "iter_h h v = Inr svs"
proof (cases v)
  case (PRef s)
  with assms(2) have "s < length h0"
    by (auto simp: iter_h_def obj_at_def split: if_splits)
  with assms(1) have "obj_at h s = obj_at h0 s"
    by (simp add: obj_at_def kept_def)
  with assms(2) show ?thesis by (simp add: iter_h_def PRef)
qed (use assms(2) in \<open>simp_all add: iter_h_def\<close>)

section \<open>The store computes the report of the function on values\<close>

text \<open>
  On a store without cycles, and on every store that a run on it has left or that
  otherwise keeps its objects, \<open>run_h\<close> raises what \<open>run_reconciliation\<close> raises on the
  values the store stands for, returns \<^verbatim>\<open>None\<close> when it does, and otherwise returns a new
  list of new row dicts that stand for the same rows.
\<close>

lemma tree_storeD: "tree_store h \<Longrightarrow> a < length h \<Longrightarrow> obj_below a (h ! a)"
  by (simp add: tree_store_def list_all_iff)

lemma val_below_mono: "val_below a v \<Longrightarrow> a \<le> b \<Longrightarrow> val_below b v"
  by (cases v) (simp_all add: val_below_def)

lemma view_scalar [simp]:
  "view k h PNone = JNull" "view k h (PBool b) = JBool b" "view k h (PInt i) = JInt i"
  "view k h (PStr s) = JStr s"
  by (cases k; simp)+

lemma view_stable:
  assumes "tree_store h0" and "kept n h0 h" and "n \<le> length h0"
  shows "val_below a v \<Longrightarrow> a \<le> n \<Longrightarrow> a \<le> k \<Longrightarrow> a \<le> k' \<Longrightarrow> view k h v = view k' h0 v"
proof (induction k arbitrary: a v k')
  case 0
  then show ?case by (cases v) (simp_all add: val_below_def)
next
  case (Suc k)
  show ?case
  proof (cases v)
    case (PRef b)
    with Suc.prems(1) have b: "b < a" by (simp add: val_below_def)
    then obtain k0 where k': "k' = Suc k0" using Suc.prems(4) by (cases k') simp_all
    have bk: "b \<le> k" "b \<le> k0" using b Suc.prems(3,4) k' by simp_all
    have bn: "b < n" "b \<le> n" using b Suc.prems(2) by simp_all
    have bl: "b < length h0" using bn(1) assms(3) by simp
    have o: "obj_at h b = obj_at h0 b"
      using assms(2) bn(1) bl by (simp add: obj_at_def kept_def)
    have below: "obj_below b (h0 ! b)" using assms(1) bl by (rule tree_storeD)
    have ih: "\<And>x. val_below b x \<Longrightarrow> view k h x = view k0 h0 x"
      using Suc.IH [OF _ bn(2) bk] by blast
    show ?thesis
    proof (cases "h0 ! b")
      case (PList vs)
      then have "\<forall>x \<in> set vs. val_below b x" using below by (simp add: obj_below_def list_all_iff)
      then have "map (view k h) vs = map (view k0 h0) vs" using ih by simp
      then show ?thesis using PList bl o by (simp add: PRef k' obj_at_def)
    next
      case (PDict f)
      then have "\<forall>kv \<in> set f. val_below b (snd kv)" using below by (simp add: obj_below_def list_all_iff)
      then have "map (\<lambda>kv. (fst kv, view k h (snd kv))) f = map (\<lambda>kv. (fst kv, view k0 h0 (snd kv))) f"
        using ih by simp
      then show ?thesis using PDict bl o by (simp add: PRef k' obj_at_def)
    next
      case (PIndex ix)
      then show ?thesis using bl o by (simp add: PRef k' obj_at_def)
    qed
  qed simp_all
qed

lemma jview_stable:
  assumes "tree_store h0" and "kept (length h0) h0 h" and "val_below (length h0) v"
  shows "jview h v = jview h0 v"
proof -
  have "length h0 \<le> length h" using assms(2) by (simp add: kept_def)
  then show ?thesis
    unfolding jview_def
    using view_stable [OF assms(1,2) order_refl assms(3) order_refl, of "length h" "length h0"]
    by simp
qed

lemma jview_ref:
  assumes "tree_store h" and "a < length h"
  shows "jview h (PRef a) =
     (case h ! a of
        PList vs \<Rightarrow> JArr (map (jview h) vs)
      | PDict f \<Rightarrow> JObj (map (\<lambda>kv. (fst kv, jview h (snd kv))) f)
      | PIndex ix \<Rightarrow> JNull)"
proof -
  obtain k where k: "length h = Suc k" using assms(2) by (cases "length h") simp_all
  have below: "obj_below a (h ! a)" using assms by (rule tree_storeD)
  have st: "\<And>x. val_below a x \<Longrightarrow> view k h x = jview h x"
    unfolding jview_def
    using view_stable [OF assms(1) kept_refl order_refl, of a _ k "length h"] assms(2) k
    by simp
  show ?thesis
  proof (cases "h ! a")
    case (PList vs)
    then have "\<forall>x \<in> set vs. val_below a x" using below by (simp add: obj_below_def list_all_iff)
    then have "map (view k h) vs = map (jview h) vs" using st by simp
    then show ?thesis using PList assms(2) by (simp add: jview_def [of h "PRef a"] k obj_at_def)
  next
    case (PDict f)
    then have "\<forall>kv \<in> set f. val_below a (snd kv)" using below by (simp add: obj_below_def list_all_iff)
    then have "map (\<lambda>kv. (fst kv, view k h (snd kv))) f = map (\<lambda>kv. (fst kv, jview h (snd kv))) f"
      using st by simp
    then show ?thesis using PDict assms(2) by (simp add: jview_def [of h "PRef a"] k obj_at_def)
  next
    case (PIndex ix)
    then show ?thesis using assms(2) by (simp add: jview_def [of h "PRef a"] k obj_at_def)
  qed
qed

lemma jview_scalar [simp]:
  "jview h PNone = JNull" "jview h (PBool b) = JBool b" "jview h (PInt i) = JInt i"
  "jview h (PStr s) = JStr s"
  by (simp_all add: jview_def)

lemma map_of_view:
  "map_of (map (\<lambda>kv. (fst kv, g (snd kv))) f) k = map_option g (map_of f k)"
  by (induction f) auto

lemma py_get_view:
  assumes "tree_store h" and "val_below (length h) v"
  shows "py_get (jview h v) k (jview h d) =
         (case get_h h v k d of Inl e \<Rightarrow> Inl e | Inr x \<Rightarrow> Inr (jview h x))"
proof (cases v)
  case (PRef a)
  with assms(2) have a: "a < length h" by (simp add: val_below_def)
  show ?thesis
  proof (cases "h ! a")
    case (PDict f)
    then show ?thesis
      using a by (simp add: PRef jview_ref [OF assms(1) a] py_get_def get_h_def obj_at_def
            dict_get_def map_of_view split: option.splits)
  qed (use a in \<open>simp_all add: PRef jview_ref [OF assms(1) a] py_get_def get_h_def obj_at_def\<close>)
qed (simp_all add: py_get_def get_h_def)

lemma py_iter_view:
  assumes "tree_store h" and "val_below (length h) v"
  shows "py_iter (jview h v) =
         (case iter_h h v of Inl e \<Rightarrow> Inl e | Inr xs \<Rightarrow> Inr (map (jview h) xs))"
proof (cases v)
  case (PRef a)
  with assms(2) have a: "a < length h" by (simp add: val_below_def)
  show ?thesis
    using a by (cases "h ! a")
      (simp_all add: PRef jview_ref [OF assms(1) a] py_iter_def iter_h_def obj_at_def comp_def)
qed (simp_all add: py_iter_def iter_h_def comp_def)

lemma get_h_below:
  assumes "tree_store h" and "get_h h v k d = Inr x" and "val_below (length h) d"
  shows "val_below (length h) x"
proof -
  from assms(2) obtain a f where v: "v = PRef a" "a < length h" "h ! a = PDict f"
    and x: "x = (case map_of f k of None \<Rightarrow> d | Some y \<Rightarrow> y)"
    by (auto simp: get_h_def obj_at_def split: pval.splits option.splits pobj.splits if_splits)
  have "obj_below a (h ! a)" using assms(1) v(2) by (rule tree_storeD)
  then have "\<forall>kv \<in> set f. val_below a (snd kv)" by (simp add: v(3) obj_below_def list_all_iff)
  then have "\<And>y. map_of f k = Some y \<Longrightarrow> val_below (length h) y"
    using v(2) by (metis map_of_SomeD snd_conv val_below_mono less_imp_le)
  then show ?thesis using assms(3) by (auto simp: x split: option.splits)
qed

lemma iter_h_below:
  assumes "tree_store h" and "iter_h h v = Inr xs" and "x \<in> set xs"
  shows "val_below (length h) x"
proof (cases v)
  case (PRef a)
  with assms(2) have a: "a < length h"
    by (auto simp: iter_h_def obj_at_def split: if_splits)
  have below: "obj_below a (h ! a)" using assms(1) a by (rule tree_storeD)
  show ?thesis
  proof (cases "h ! a")
    case (PList vs)
    then have "xs = vs" using assms(2) a by (simp add: PRef iter_h_def obj_at_def)
    moreover have "\<forall>y \<in> set vs. val_below a y" using below PList by (simp add: obj_below_def list_all_iff)
    ultimately show ?thesis using assms(3) a by (auto intro: val_below_mono)
  next
    case (PDict f)
    then have "xs = map (\<lambda>kv. PStr (fst kv)) f" using assms(2) a by (simp add: PRef iter_h_def obj_at_def)
    then show ?thesis using assms(3) by (auto simp: val_below_def)
  next
    case (PIndex ix)
    then show ?thesis using assms(2) a by (simp add: PRef iter_h_def obj_at_def)
  qed
next
  case (PStr s)
  then show ?thesis using assms(2,3) by (auto simp: iter_h_def val_below_def)
qed (use assms(2) in \<open>simp_all add: iter_h_def\<close>)

lemma obj_at_update: "obj_at (h[a := ob]) b = (if b = a \<and> a < length h then Some ob else obj_at h b)"
  by (simp add: obj_at_def)

lemma obj_at_snoc: "obj_at (h @ [ob]) b = (if b = length h then Some ob else obj_at h b)"
  by (simp add: obj_at_def nth_append)

lemma index_rel_inv:
  assumes "index_rel n e h cs idx"
  shows "index_inv n (length h) e h"
proof -
  from assms have e: "n \<le> e" "obj_at h e = Some (PIndex (zip (map fst idx) (map PRef cs)))"
    and len: "length cs = length idx"
    and cs: "\<forall>i < length idx. n \<le> cs ! i \<and> cs ! i \<noteq> e \<and> obj_at h (cs ! i) = Some (counter_obj (snd (idx ! i)))"
    unfolding index_rel_def by blast+
  have "\<forall>kv \<in> set (zip (map fst idx) (map PRef cs)). \<exists>c. snd kv = PRef c \<and> n \<le> c \<and> c < length h \<and> c \<noteq> e"
  proof
    fix kv assume "kv \<in> set (zip (map fst idx) (map PRef cs))"
    then obtain i where i: "i < length idx" "kv = (fst (idx ! i), PRef (cs ! i))"
      using len by (auto simp: set_zip)
    with cs show "\<exists>c. snd kv = PRef c \<and> n \<le> c \<and> c < length h \<and> c \<noteq> e"
      by (auto simp: obj_at_Some)
  qed
  with e show ?thesis
    unfolding index_inv_def by (auto simp: obj_at_Some)
qed

lemma nth_key:
  assumes "distinct (map fst idx)" and "k \<in> fst ` set idx"
  shows "\<exists>i < length idx. fst (idx ! i) = k \<and> map_of idx k = Some (snd (idx ! i)) \<and>
           (\<forall>j < length idx. fst (idx ! j) = k \<longrightarrow> j = i)"
proof -
  from assms(2) obtain i where i: "i < length idx" "fst (idx ! i) = k"
    by (auto simp: in_set_conv_nth)
  have "(k, snd (idx ! i)) \<in> set idx" using i by (metis nth_mem prod.collapse)
  then have m: "map_of idx k = Some (snd (idx ! i))" using assms(1) by simp
  have "\<forall>j < length idx. fst (idx ! j) = k \<longrightarrow> j = i"
    using assms(1) i by (metis distinct_conv_nth length_map nth_map)
  with i m show ?thesis by blast
qed

lemma map_of_zip_nth:
  assumes "distinct ks" and "length ks = length vs" and "i < length ks"
  shows "map_of (zip ks vs) (ks ! i) = Some (vs ! i)"
  using assms
proof (induction ks arbitrary: vs i)
  case Nil
  then show ?case by simp
next
  case (Cons k ks)
  then obtain v vs' where vs: "vs = v # vs'" by (cases vs) simp_all
  show ?case
  proof (cases i)
    case 0
    then show ?thesis by (simp add: vs)
  next
    case (Suc j)
    with Cons.prems have "ks ! j \<noteq> k" by auto
    with Cons Suc vs show ?thesis by simp
  qed
qed

lemma modify_nth:
  assumes "distinct (map fst idx)" and "i < length idx"
  shows "modify (fst (idx ! i)) f idx = idx[i := (fst (idx ! i), f (snd (idx ! i)))]"
proof (rule nth_equalityI)
  show "length (modify (fst (idx ! i)) f idx) = length (idx[i := (fst (idx ! i), f (snd (idx ! i)))])"
    by (simp add: modify_distinct [OF assms(1)])
next
  fix j assume "j < length (modify (fst (idx ! i)) f idx)"
  then have j: "j < length idx" by (simp add: modify_distinct [OF assms(1)])
  have "fst (idx ! j) = fst (idx ! i) \<longleftrightarrow> j = i"
    using assms j by (metis distinct_conv_nth length_map nth_map)
  then show "modify (fst (idx ! i)) f idx ! j = idx[i := (fst (idx ! i), f (snd (idx ! i)))] ! j"
    using j by (auto simp: modify_distinct [OF assms(1)])
qed

lemma index_rel_lookup:
  assumes "index_rel n e h cs idx" and "i < length idx"
  shows "obj_at h e = Some (PIndex (zip (map fst idx) (map PRef cs)))"
    and "map_of (zip (map fst idx) (map PRef cs)) (fst (idx ! i)) = Some (PRef (cs ! i))"
    and "obj_at h (cs ! i) = Some (counter_obj (snd (idx ! i)))"
proof -
  from assms(1) have d: "distinct (map fst idx)" and len: "length cs = length idx"
    and e: "obj_at h e = Some (PIndex (zip (map fst idx) (map PRef cs)))"
    and c: "\<forall>i < length idx. obj_at h (cs ! i) = Some (counter_obj (snd (idx ! i)))"
    unfolding index_rel_def by blast+
  show "obj_at h e = Some (PIndex (zip (map fst idx) (map PRef cs)))" by (rule e)
  show "obj_at h (cs ! i) = Some (counter_obj (snd (idx ! i)))" using c assms(2) by simp
  have "map_of (zip (map fst idx) (map PRef cs)) (map fst idx ! i) = Some (map PRef cs ! i)"
    using d len assms(2) by (intro map_of_zip_nth) simp_all
  then show "map_of (zip (map fst idx) (map PRef cs)) (fst (idx ! i)) = Some (PRef (cs ! i))"
    using assms(2) len by simp
qed

lemma counter_add_expected:
  assumes "index_rel n e h cs idx" and "i < length idx"
  shows "counter_add e (fst (idx ! i)) ''expected'' q h =
     (case py_add (expected (snd (idx ! i))) q of
        Inl x \<Rightarrow> (h, Inl x)
      | Inr m \<Rightarrow> (h[cs ! i := counter_obj ((snd (idx ! i))\<lparr>expected := m\<rparr>)], Inr ()))"
  using index_rel_lookup [OF assms]
  by (simp add: counter_add_def counter_obj_def split: sum.splits)

lemma counter_add_received:
  assumes "index_rel n e h cs idx" and "i < length idx"
  shows "counter_add e (fst (idx ! i)) ''received'' (JInt 1) h =
     (h[cs ! i := counter_obj ((snd (idx ! i))\<lparr>received := received (snd (idx ! i)) + 1\<rparr>)], Inr ())"
  using index_rel_lookup [OF assms]
  by (simp add: counter_add_def counter_obj_def py_add_def)

lemma index_rel_update:
  assumes "index_rel n e h cs idx" and "i < length idx"
  shows "index_rel n e (h[cs ! i := counter_obj c']) cs (idx[i := (fst (idx ! i), c')])"
proof -
  from assms(1) have ne: "n \<le> e" and d: "distinct (map fst idx)" and len: "length cs = length idx"
    and dc: "distinct cs"
    and e: "obj_at h e = Some (PIndex (zip (map fst idx) (map PRef cs)))"
    and c: "\<forall>j < length idx. n \<le> cs ! j \<and> cs ! j \<noteq> e \<and> obj_at h (cs ! j) = Some (counter_obj (snd (idx ! j)))"
    unfolding index_rel_def by blast+
  let ?h = "h[cs ! i := counter_obj c']" and ?idx = "idx[i := (fst (idx ! i), c')]"
  have keys: "map fst ?idx = map fst idx"
    using assms(2) by (simp add: map_update list_update_same_conv)
  have ci: "cs ! i \<noteq> e" "cs ! i < length h" using c assms(2) by (auto simp: obj_at_Some)
  have e': "obj_at ?h e = Some (PIndex (zip (map fst ?idx) (map PRef cs)))"
    using e ci(1) by (simp add: keys obj_at_update)
  have "\<forall>j < length ?idx. n \<le> cs ! j \<and> cs ! j \<noteq> e \<and> obj_at ?h (cs ! j) = Some (counter_obj (snd (?idx ! j)))"
  proof (intro allI impI)
    fix j assume "j < length ?idx"
    then have j: "j < length idx" by simp
    show "n \<le> cs ! j \<and> cs ! j \<noteq> e \<and> obj_at ?h (cs ! j) = Some (counter_obj (snd (?idx ! j)))"
    proof (cases "j = i")
      case True
      then show ?thesis using c j ci(2) by (simp add: obj_at_update)
    next
      case False
      then have "cs ! j \<noteq> cs ! i"
        using dc j assms(2) len by (simp add: nth_eq_iff_index_eq)
      then show ?thesis using c j False by (simp add: obj_at_update)
    qed
  qed
  with ne d len dc e' show ?thesis
    unfolding index_rel_def by (simp add: keys)
qed

lemma index_rel_insert:
  assumes "index_rel n e h cs idx" and "k \<notin> fst ` set idx"
  shows "index_rel n e ((h @ [counter_obj c'])[e := PIndex (zip (map fst idx) (map PRef cs) @ [(k, PRef (length h))])])
           (cs @ [length h]) (idx @ [(k, c')])"
proof -
  from assms(1) have ne: "n \<le> e" and d: "distinct (map fst idx)" and len: "length cs = length idx"
    and dc: "distinct cs"
    and e: "obj_at h e = Some (PIndex (zip (map fst idx) (map PRef cs)))"
    and c: "\<forall>j < length idx. n \<le> cs ! j \<and> cs ! j \<noteq> e \<and> obj_at h (cs ! j) = Some (counter_obj (snd (idx ! j)))"
    unfolding index_rel_def by blast+
  let ?h = "(h @ [counter_obj c'])[e := PIndex (zip (map fst idx) (map PRef cs) @ [(k, PRef (length h))])]"
  have el: "e < length h" using e by (simp add: obj_at_Some)
  have cl: "\<forall>x \<in> set cs. x < length h"
    using c len by (auto simp: in_set_conv_nth obj_at_Some)
  have 1: "distinct (cs @ [length h])" using dc cl by auto
  have 2: "distinct (map fst (idx @ [(k, c')]))" using d assms(2) by simp
  have 3: "obj_at ?h e = Some (PIndex (zip (map fst (idx @ [(k, c')])) (map PRef (cs @ [length h]))))"
    using el len by (simp add: obj_at_update)
  have 4: "\<forall>j < length (idx @ [(k, c')]). n \<le> (cs @ [length h]) ! j \<and> (cs @ [length h]) ! j \<noteq> e \<and>
              obj_at ?h ((cs @ [length h]) ! j) = Some (counter_obj (snd ((idx @ [(k, c')]) ! j)))"
  proof (intro allI impI)
    fix j assume "j < length (idx @ [(k, c')])"
    then consider "j < length idx" | "j = length idx" by fastforce
    then show "n \<le> (cs @ [length h]) ! j \<and> (cs @ [length h]) ! j \<noteq> e \<and>
              obj_at ?h ((cs @ [length h]) ! j) = Some (counter_obj (snd ((idx @ [(k, c')]) ! j)))"
    proof cases
      case 1
      then have "cs ! j < length h" using cl len by simp
      then show ?thesis using c 1 len by (simp add: nth_append obj_at_update obj_at_snoc)
    next
      case 2
      then show ?thesis using len el ne by (simp add: nth_append obj_at_update obj_at_snoc)
    qed
  qed
  show ?thesis
    unfolding index_rel_def using ne len 1 2 3 4 by simp
qed

lemma index_rel_keys:
  assumes "index_rel n e h cs idx"
  shows "map fst (zip (map fst idx) (map PRef cs)) = map fst idx"
proof -
  from assms have "length cs = length idx" unfolding index_rel_def by blast
  then show ?thesis by (simp add: map_fst_zip)
qed

lemma ensure_key_sim:
  assumes "index_rel n e h cs idx"
  shows "\<exists>h1 cs1.
           ensure_key e k h = (h1, Inr ()) \<and>
           index_rel n e h1 cs1
             (if k \<in> set (map fst idx) then idx else idx @ [(k, \<lparr>expected = 0, received = 0\<rparr>)])"
proof -
  have e: "obj_at h e = Some (PIndex (zip (map fst idx) (map PRef cs)))"
    using assms unfolding index_rel_def by blast
  show ?thesis
  proof (cases "k \<in> set (map fst idx)")
    case True
    then have "ensure_key e k h = (h, Inr ())"
      using e index_rel_keys [OF assms] by (simp add: ensure_key_def)
    with True assms show ?thesis by auto
  next
    case False
    then have nk: "k \<notin> fst ` set idx" by simp
    have "ensure_key e k h =
          ((h @ [counter_obj \<lparr>expected = 0, received = 0\<rparr>])
             [e := PIndex (zip (map fst idx) (map PRef cs) @ [(k, PRef (length h))])], Inr ())"
      using False e index_rel_keys [OF assms]
      by (simp add: ensure_key_def alloc_def Let_def counter_obj_def)
    with False index_rel_insert [OF assms nk, of "\<lparr>expected = 0, received = 0\<rparr>"]
    show ?thesis by auto
  qed
qed

lemma build_step_h_sim:
  assumes ts: "tree_store h0" and k: "kept (length h0) h0 h" and vb: "val_below (length h0) line"
    and rel: "index_rel (length h0) e h cs idx"
  shows "\<exists>h' res.
           build_step_h e line h = (h', res) \<and> kept (length h0) h0 h' \<and>
           (case res of
              Inl x \<Rightarrow> build_step idx (jview h0 line) = Inl x
            | Inr w \<Rightarrow> (\<exists>cs' idx'. build_step idx (jview h0 line) = Inr idx' \<and>
                                   index_rel (length h0) e h' cs' idx'))"
proof -
  obtain h' res where run: "build_step_h e line h = (h', res)" by (cases "build_step_h e line h")
  have kept': "kept (length h0) h0 h'"
    using k build_step_h_inv [OF index_rel_inv [OF rel] run] by (auto intro: kept_trans)
  have j: "jview h line = jview h0 line" using ts k vb by (rule jview_stable)
  have "case res of
              Inl x \<Rightarrow> build_step idx (jview h0 line) = Inl x
            | Inr w \<Rightarrow> (\<exists>cs' idx'. build_step idx (jview h0 line) = Inr idx' \<and>
                                   index_rel (length h0) e h' cs' idx')"
  proof (cases "line_key (jview h0 line)")
    case (Inl x)
    then show ?thesis using run j by (auto simp: build_step_h_def build_step_def)
  next
    case (Inr key)
    define idx1 where
      "idx1 = (if key \<in> set (map fst idx) then idx else idx @ [(key, \<lparr>expected = 0, received = 0\<rparr>)])"
    from ensure_key_sim [OF rel, of key] obtain h1 cs1 where
      ek: "ensure_key e key h = (h1, Inr ())" and rel1: "index_rel (length h0) e h1 cs1 idx1"
      unfolding idx1_def by blast
    have k1: "kept (length h0) h0 h1"
      using k ensure_key_inv [OF index_rel_inv [OF rel] ek] by (auto intro: kept_trans)
    have j1: "jview h1 line = jview h0 line" using ts k1 vb by (rule jview_stable)
    have d1: "distinct (map fst idx1)" using rel1 unfolding index_rel_def by blast
    have bs: "build_step idx (jview h0 line) =
       (case map_of idx1 key of
          None \<Rightarrow> Inl KeyError
        | Some c \<Rightarrow>
            (case py_get (jview h0 line) ''qty_units_expected'' (JInt 0) of
               Inl x \<Rightarrow> Inl x
             | Inr q \<Rightarrow>
                 (case py_add (expected c) q of
                    Inl x \<Rightarrow> Inl x
                  | Inr n \<Rightarrow> Inr (modify key (\<lambda>c. c\<lparr>expected := n\<rparr>) idx1))))"
      by (simp only: build_step_def Inr sum.case Let_def idx1_def)
    have "key \<in> fst ` set idx1" by (auto simp: idx1_def)
    from nth_key [OF d1 this] obtain i where i: "i < length idx1" "fst (idx1 ! i) = key"
      "map_of idx1 key = Some (snd (idx1 ! i))" by blast
    show ?thesis
    proof (cases "py_get (jview h0 line) ''qty_units_expected'' (JInt 0)")
      case (Inl x)
      then have "res = Inl x" using run j Inr ek j1 by (simp add: build_step_h_def)
      moreover have "build_step idx (jview h0 line) = Inl x"
        using Inl i(3) by (simp add: bs)
      ultimately show ?thesis by simp
    next
      case q: (Inr q)
      have ca: "counter_add e key ''expected'' q h1 = (h', res)"
        using run j Inr ek j1 q by (simp add: build_step_h_def)
      note ce = counter_add_expected [OF rel1 i(1), of q, unfolded i(2)]
      show ?thesis
      proof (cases "py_add (expected (snd (idx1 ! i))) q")
        case (Inl x)
        then have "res = Inl x" using ca ce by simp
        moreover have "build_step idx (jview h0 line) = Inl x"
          using q i(3) Inl by (simp add: bs)
        ultimately show ?thesis by simp
      next
        case m: (Inr m)
        then have h': "h' = h1[cs1 ! i := counter_obj ((snd (idx1 ! i))\<lparr>expected := m\<rparr>)]"
          and res: "res = Inr ()"
          using ca ce by simp_all
        have "build_step idx (jview h0 line) = Inr (modify key (\<lambda>c. c\<lparr>expected := m\<rparr>) idx1)"
          using q i(3) m by (simp add: bs)
        also have "modify key (\<lambda>c. c\<lparr>expected := m\<rparr>) idx1 =
                   idx1[i := (fst (idx1 ! i), (snd (idx1 ! i))\<lparr>expected := m\<rparr>)]"
          using modify_nth [OF d1 i(1), of "\<lambda>c. c\<lparr>expected := m\<rparr>"] i(2) by simp
        finally have b: "build_step idx (jview h0 line) =
                   Inr (idx1[i := (fst (idx1 ! i), (snd (idx1 ! i))\<lparr>expected := m\<rparr>)])" .
        have "index_rel (length h0) e h' cs1 (idx1[i := (fst (idx1 ! i), (snd (idx1 ! i))\<lparr>expected := m\<rparr>)])"
          unfolding h' using rel1 i(1) by (rule index_rel_update)
        with b res show ?thesis by auto
      qed
    qed
  qed
  with run kept' show ?thesis by blast
qed

lemma build_index_h_sim:
  assumes ts: "tree_store h0"
  shows "kept (length h0) h0 h \<Longrightarrow> \<forall>line \<in> set lines. val_below (length h0) line \<Longrightarrow>
         index_rel (length h0) e h cs idx \<Longrightarrow>
         \<exists>h' res.
           build_index_h e lines h = (h', res) \<and> kept (length h0) h0 h' \<and>
           (case res of
              Inl x \<Rightarrow> build_index idx (map (jview h0) lines) = Inl x
            | Inr w \<Rightarrow> (\<exists>cs' idx'. build_index idx (map (jview h0) lines) = Inr idx' \<and>
                                   index_rel (length h0) e h' cs' idx'))"
proof (induction lines arbitrary: h cs idx)
  case Nil
  then show ?case by auto
next
  case (Cons line lines)
  from Cons.prems(2) have vb: "val_below (length h0) line"
    and rest: "\<forall>l \<in> set lines. val_below (length h0) l" by simp_all
  from build_step_h_sim [OF ts Cons.prems(1) vb Cons.prems(3)] obtain h1 r1 where
    s: "build_step_h e line h = (h1, r1)" and k1: "kept (length h0) h0 h1"
    and c: "case r1 of
              Inl x \<Rightarrow> build_step idx (jview h0 line) = Inl x
            | Inr w \<Rightarrow> (\<exists>cs' idx'. build_step idx (jview h0 line) = Inr idx' \<and>
                                   index_rel (length h0) e h1 cs' idx')"
    by blast
  show ?case
  proof (cases r1)
    case (Inl x)
    with s k1 c show ?thesis by auto
  next
    case (Inr w)
    with c obtain cs1 idx1 where b: "build_step idx (jview h0 line) = Inr idx1"
      and rel1: "index_rel (length h0) e h1 cs1 idx1" by auto
    from Cons.IH [OF k1 rest rel1] obtain h' res where
      r: "build_index_h e lines h1 = (h', res)" "kept (length h0) h0 h'"
      "case res of
              Inl x \<Rightarrow> build_index idx1 (map (jview h0) lines) = Inl x
            | Inr w \<Rightarrow> (\<exists>cs' idx'. build_index idx1 (map (jview h0) lines) = Inr idx' \<and>
                                   index_rel (length h0) e h' cs' idx')"
      by blast
    have run: "build_index_h e (line # lines) h = (h', res)" using s Inr r(1) by simp
    have eq: "build_index idx (map (jview h0) (line # lines)) = build_index idx1 (map (jview h0) lines)"
      using b by simp
    from r(3) have "case res of
              Inl x \<Rightarrow> build_index idx (map (jview h0) (line # lines)) = Inl x
            | Inr w \<Rightarrow> (\<exists>cs' idx'. build_index idx (map (jview h0) (line # lines)) = Inr idx' \<and>
                                   index_rel (length h0) e h' cs' idx')"
      unfolding eq .
    with run r(2) show ?thesis by blast
  qed
qed

lemma scan_keys_h_sim:
  assumes rel: "index_rel n e h cs idx"
  shows "set ks \<subseteq> fst ` set idx \<Longrightarrow>
         \<exists>h' b idx'.
           scan_keys_h e st sz ks h = (h', Inr b) \<and> scan_keys st sz ks idx = Inr (idx', b) \<and>
           index_rel n e h' cs idx' \<and> (\<forall>a. a \<notin> set cs \<longrightarrow> obj_at h' a = obj_at h a) \<and>
           kept n h h'"
proof (induction ks)
  case Nil
  then show ?case using rel by auto
next
  case (Cons k ks)
  show ?case
  proof (cases "startswith (fst k) st \<and> snd k = sz")
    case False
    with Cons show ?thesis by auto
  next
    case True
    from rel have d: "distinct (map fst idx)" and len: "length cs = length idx"
      unfolding index_rel_def by blast+
    from Cons.prems have "k \<in> fst ` set idx" by simp
    from nth_key [OF d this] obtain i where i: "i < length idx" "fst (idx ! i) = k"
      "map_of idx k = Some (snd (idx ! i))" by blast
    let ?c = "(snd (idx ! i))\<lparr>received := received (snd (idx ! i)) + 1\<rparr>"
    have h: "scan_keys_h e st sz (k # ks) h = (h[cs ! i := counter_obj ?c], Inr True)"
      using True counter_add_received [OF rel i(1)] i(2) by simp
    have "modify k (\<lambda>c. c\<lparr>received := received c + 1\<rparr>) idx = idx[i := (fst (idx ! i), ?c)]"
      using modify_nth [OF d i(1), of "\<lambda>c. c\<lparr>received := received c + 1\<rparr>"] i(2) by simp
    then have p: "scan_keys st sz (k # ks) idx = Inr (idx[i := (fst (idx ! i), ?c)], True)"
      using True i(3) by simp
    have r: "index_rel n e (h[cs ! i := counter_obj ?c]) cs (idx[i := (fst (idx ! i), ?c)])"
      using rel i(1) by (rule index_rel_update)
    have o: "\<forall>a. a \<notin> set cs \<longrightarrow> obj_at (h[cs ! i := counter_obj ?c]) a = obj_at h a"
      using i(1) len by (auto simp: obj_at_update)
    have "n \<le> cs ! i" using rel i(1) unfolding index_rel_def by blast
    then have "kept n h (h[cs ! i := counter_obj ?c])" by (rule kept_write)
    with h p r o show ?thesis by blast
  qed
qed

lemma index_rel_other:
  assumes "index_rel n e h cs idx" and "a \<noteq> e" and "a \<notin> set cs"
  shows "index_rel n e (h[a := ob]) cs idx"
proof -
  from assms(1) have len: "length cs = length idx" unfolding index_rel_def by blast
  have "\<forall>i < length idx. cs ! i \<noteq> a" using assms(3) len by (metis nth_mem)
  then show ?thesis
    using assms(1,2) unfolding index_rel_def by (simp add: obj_at_update)
qed


lemma match_step_h_sim:
  assumes ts: "tree_store h0" and k: "kept (length h0) h0 h" and vb: "val_below (length h0) sticker"
    and rel: "index_rel (length h0) e h cs idx"
    and u: "u \<noteq> e" "u \<notin> set cs" "length h0 \<le> u" and vs: "obj_at h u = Some (PList vs)"
  shows "\<exists>h' res.
           match_step_h e u sticker h = (h', res) \<and> kept (length h0) h0 h' \<and>
           (case res of
              Inl x \<Rightarrow> match_step (idx, map (jview h0) vs) (jview h0 sticker) = Inl x
            | Inr w \<Rightarrow>
                (\<exists>idx'. match_step (idx, map (jview h0) vs) (jview h0 sticker)
                               = Inr (idx', map (jview h0) (vs @ unmatched_of h0 (map fst idx) [sticker])) \<and>
                        map fst idx' = map fst idx \<and>
                        index_rel (length h0) e h' cs idx' \<and>
                        obj_at h' u = Some (PList (vs @ unmatched_of h0 (map fst idx) [sticker]))))"
proof -
  have j: "jview h sticker = jview h0 sticker" using ts k vb by (rule jview_stable)
  show ?thesis
  proof (cases "sticker_key (jview h0 sticker)")
    case (Inl x)
    then have "match_step_h e u sticker h = (h, Inl x)" using j by (simp add: match_step_h_def)
    moreover have "match_step (idx, map (jview h0) vs) (jview h0 sticker) = Inl x"
      using Inl by (simp add: match_step_def)
    ultimately show ?thesis using k by auto
  next
    case (Inr sk)
    have e: "obj_at h e = Some (PIndex (zip (map fst idx) (map PRef cs)))"
      using rel unfolding index_rel_def by blast
    have keys: "map fst (zip (map fst idx) (map PRef cs)) = map fst idx"
      using rel by (rule index_rel_keys)
    from scan_keys_h_sim [OF rel, of "map fst idx" "fst sk" "snd sk"] obtain h1 b idx' where
      sh: "scan_keys_h e (fst sk) (snd sk) (map fst idx) h = (h1, Inr b)"
      and sp: "scan_keys (fst sk) (snd sk) (map fst idx) idx = Inr (idx', b)"
      and rel1: "index_rel (length h0) e h1 cs idx'"
      and o1: "\<forall>a. a \<notin> set cs \<longrightarrow> obj_at h1 a = obj_at h a"
      and k1: "kept (length h0) h h1"
      by auto
    have nm: "no_match (map fst idx) (jview h0 sticker) = (\<not> b)"
      and keys': "map fst idx' = map fst idx"
      using scan_keys_find [of "map fst idx" idx "fst sk" "snd sk"] sp Inr
      by (auto simp: no_match_def first_match_def split: option.splits)
    have u1: "obj_at h1 u = Some (PList vs)" using o1 u(2) vs by simp
    have k01: "kept (length h0) h0 h1" using k k1 by (rule kept_trans)
    show ?thesis
    proof (cases b)
      case True
      have "match_step_h e u sticker h = (h1, Inr ())"
        using j Inr e keys sh True by (simp add: match_step_h_def)
      moreover have "match_step (idx, map (jview h0) vs) (jview h0 sticker) = Inr (idx', map (jview h0) vs)"
        using Inr sp True by (simp add: match_step_def)
      moreover have "unmatched_of h0 (map fst idx) [sticker] = []"
        using nm True by (simp add: unmatched_of_def)
      ultimately show ?thesis using k01 rel1 u1 keys' by auto
    next
      case False
      let ?h' = "h1[u := PList (vs @ [sticker])]"
      have "match_step_h e u sticker h = (?h', Inr ())"
        using j Inr e keys sh False u1 by (simp add: match_step_h_def)
      moreover have "match_step (idx, map (jview h0) vs) (jview h0 sticker)
                       = Inr (idx', map (jview h0) (vs @ [sticker]))"
        using Inr sp False by (simp add: match_step_def)
      moreover have "kept (length h0) h0 ?h'"
        using k01 kept_write [OF u(3)] by (rule kept_trans)
      moreover have "index_rel (length h0) e ?h' cs idx'"
        using rel1 u(1,2) by (rule index_rel_other)
      moreover have "obj_at ?h' u = Some (PList (vs @ [sticker]))"
        using u1 by (simp add: obj_at_update obj_at_Some)
      moreover have "unmatched_of h0 (map fst idx) [sticker] = [sticker]"
        using nm False by (simp add: unmatched_of_def)
      ultimately show ?thesis using keys' by auto
    qed
  qed
qed

lemma match_stickers_h_sim:
  assumes ts: "tree_store h0" and u: "u \<noteq> e" "u \<notin> set cs" "length h0 \<le> u"
  shows "kept (length h0) h0 h \<Longrightarrow> \<forall>sv \<in> set svs. val_below (length h0) sv \<Longrightarrow>
         index_rel (length h0) e h cs idx \<Longrightarrow> obj_at h u = Some (PList vs) \<Longrightarrow>
         \<exists>h' res.
           match_stickers_h e u svs h = (h', res) \<and> kept (length h0) h0 h' \<and>
           (case res of
              Inl x \<Rightarrow> match_stickers (idx, map (jview h0) vs) (map (jview h0) svs) = Inl x
            | Inr w \<Rightarrow>
                (\<exists>idx'. match_stickers (idx, map (jview h0) vs) (map (jview h0) svs)
                               = Inr (idx', map (jview h0) (vs @ unmatched_of h0 (map fst idx) svs)) \<and>
                        map fst idx' = map fst idx \<and>
                        index_rel (length h0) e h' cs idx' \<and>
                        obj_at h' u = Some (PList (vs @ unmatched_of h0 (map fst idx) svs))))"
proof (induction svs arbitrary: h idx vs)
  case Nil
  then show ?case by (auto simp: unmatched_of_def)
next
  case (Cons sv svs)
  let ?ks = "map fst idx"
  let ?vs1 = "vs @ unmatched_of h0 ?ks [sv]"
  from Cons.prems(2) have vb: "val_below (length h0) sv"
    and rest: "\<forall>x \<in> set svs. val_below (length h0) x" by simp_all
  from match_step_h_sim [OF ts Cons.prems(1) vb Cons.prems(3) u Cons.prems(4)] obtain h1 r1 where
    s: "match_step_h e u sv h = (h1, r1)" and k1: "kept (length h0) h0 h1"
    and c: "case r1 of
              Inl x \<Rightarrow> match_step (idx, map (jview h0) vs) (jview h0 sv) = Inl x
            | Inr w \<Rightarrow>
                (\<exists>idx'. match_step (idx, map (jview h0) vs) (jview h0 sv)
                               = Inr (idx', map (jview h0) ?vs1) \<and>
                        map fst idx' = ?ks \<and>
                        index_rel (length h0) e h1 cs idx' \<and>
                        obj_at h1 u = Some (PList ?vs1))"
    by blast
  show ?case
  proof (cases r1)
    case (Inl x)
    with s k1 c show ?thesis by auto
  next
    case (Inr w)
    with c obtain idx1 where m: "match_step (idx, map (jview h0) vs) (jview h0 sv) = Inr (idx1, map (jview h0) ?vs1)"
      and keys1: "map fst idx1 = ?ks"
      and rel1: "index_rel (length h0) e h1 cs idx1"
      and u1: "obj_at h1 u = Some (PList ?vs1)"
      by auto
    from Cons.IH [OF k1 rest rel1 u1] obtain h' res where
      r: "match_stickers_h e u svs h1 = (h', res)" "kept (length h0) h0 h'"
      "case res of
              Inl x \<Rightarrow> match_stickers (idx1, map (jview h0) ?vs1) (map (jview h0) svs) = Inl x
            | Inr w \<Rightarrow>
                (\<exists>idx'. match_stickers (idx1, map (jview h0) ?vs1) (map (jview h0) svs)
                               = Inr (idx', map (jview h0) (?vs1 @ unmatched_of h0 (map fst idx1) svs)) \<and>
                        map fst idx' = map fst idx1 \<and>
                        index_rel (length h0) e h' cs idx' \<and>
                        obj_at h' u = Some (PList (?vs1 @ unmatched_of h0 (map fst idx1) svs)))"
      by blast
    have run: "match_stickers_h e u (sv # svs) h = (h', res)" using s Inr r(1) by simp
    have eq: "match_stickers (idx, map (jview h0) vs) (map (jview h0) (sv # svs)) =
              match_stickers (idx1, map (jview h0) ?vs1) (map (jview h0) svs)"
      using m by simp
    have un: "?vs1 @ unmatched_of h0 ?ks svs = vs @ unmatched_of h0 ?ks (sv # svs)"
      by (simp add: unmatched_of_def)
    have "case res of
              Inl x \<Rightarrow> match_stickers (idx, map (jview h0) vs) (map (jview h0) (sv # svs)) = Inl x
            | Inr w \<Rightarrow>
                (\<exists>idx'. match_stickers (idx, map (jview h0) vs) (map (jview h0) (sv # svs))
                               = Inr (idx', map (jview h0) (vs @ unmatched_of h0 ?ks (sv # svs))) \<and>
                        map fst idx' = ?ks \<and>
                        index_rel (length h0) e h' cs idx' \<and>
                        obj_at h' u = Some (PList (vs @ unmatched_of h0 ?ks (sv # svs))))"
      using r(3) unfolding eq un keys1 .
    with run r(2) show ?thesis by blast
  qed
qed


lemma append_row_eq:
  assumes "obj_at h r = Some (PList xs)"
  shows "append_row r row h = ((h @ [row])[r := PList (xs @ [PRef (length h)])], Inr ())"
proof -
  from assms have "r < length h" by (simp add: obj_at_Some)
  with assms have "obj_at (h @ [row]) r = Some (PList xs)" by (simp add: obj_at_snoc)
  then show ?thesis by (simp add: append_row_def alloc_def)
qed

lemma row_rel_mono:
  assumes "row_rel h0 r h x p" and "\<forall>a. a \<noteq> r \<longrightarrow> a < length h \<longrightarrow> obj_at h' a = obj_at h a"
  shows "row_rel h0 r h' x p"
proof (cases x)
  case (PRef \<rho>)
  with assms(1) have "\<rho> \<noteq> r" and "\<rho> < length h"
    by (auto simp: row_rel_def obj_at_def split: if_splits)
  with assms(2) have "obj_at h' \<rho> = obj_at h \<rho>" by blast
  with assms(1) PRef show ?thesis by (simp add: row_rel_def)
qed (use assms(1) in \<open>simp_all add: row_rel_def\<close>)

lemma append_row_sim:
  assumes r: "obj_at h r = Some (PList xs)" and n: "length h0 \<le> r"
    and rows: "list_all2 (row_rel h0 r h) xs rows"
    and cells: "list_all (\<lambda>kv. val_below (length h0) (snd kv)) f"
    and js: "JObj (map (\<lambda>kv. (fst kv, jview h0 (snd kv))) f) = row_json rw"
  shows "\<exists>h' xs'. append_row r (PDict f) h = (h', Inr ()) \<and> kept (length h0) h h' \<and>
           obj_at h' r = Some (PList xs') \<and> list_all2 (row_rel h0 r h') xs' (rows @ [(rw, f)]) \<and>
           (\<forall>a. a \<noteq> r \<longrightarrow> a < length h \<longrightarrow> obj_at h' a = obj_at h a)"
proof -
  let ?h' = "(h @ [PDict f])[r := PList (xs @ [PRef (length h)])]"
  from r have rl: "r < length h" by (simp add: obj_at_Some)
  have run: "append_row r (PDict f) h = (?h', Inr ())" using r by (rule append_row_eq)
  have k: "kept (length h0) h ?h'"
    using n rl by (simp add: kept_def nth_append)
  have o: "obj_at ?h' r = Some (PList (xs @ [PRef (length h)]))"
    using rl by (simp add: obj_at_update)
  have fr: "\<forall>a. a \<noteq> r \<longrightarrow> a < length h \<longrightarrow> obj_at ?h' a = obj_at h a"
    by (simp add: obj_at_update obj_at_snoc)
  have new: "obj_at ?h' (length h) = Some (PDict f)"
    using rl by (simp add: obj_at_update obj_at_snoc)
  have old: "list_all2 (row_rel h0 r ?h') xs rows"
    using rows row_rel_mono [OF _ fr] by (rule list_all2_mono)
  have "row_rel h0 r ?h' (PRef (length h)) (rw, f)"
    using new n rl cells js by (simp add: row_rel_def)
  with old have "list_all2 (row_rel h0 r ?h') (xs @ [PRef (length h)]) (rows @ [(rw, f)])"
    by (simp add: list_all2_appendI)
  with run k o fr show ?thesis by blast
qed

lemma key_row_h_sim:
  assumes r: "obj_at h r = Some (PList xs)" and n: "length h0 \<le> r"
    and rows: "list_all2 (row_rel h0 r h) xs rows"
    and c: "obj_at h c = Some (counter_obj cn)"
  shows "\<exists>h' xs'. key_row_h r (k, PRef c) h = (h', Inr ()) \<and> kept (length h0) h h' \<and>
           obj_at h' r = Some (PList xs') \<and>
           list_all2 (row_rel h0 r h') xs' (rows @ [(key_row (k, cn), key_cells (k, cn))]) \<and>
           (\<forall>a. a \<noteq> r \<longrightarrow> a < length h \<longrightarrow> obj_at h' a = obj_at h a)"
proof -
  have run: "key_row_h r (k, PRef c) h = append_row r (PDict (key_cells (k, cn))) h"
    using c by (simp add: key_row_h_def counter_obj_def Let_def key_cells_def)
  have cells: "list_all (\<lambda>kv. val_below (length h0) (snd kv)) (key_cells (k, cn))"
    by (simp add: key_cells_def val_below_def Let_def)
  have js: "JObj (map (\<lambda>kv. (fst kv, jview h0 (snd kv))) (key_cells (k, cn))) = row_json (key_row (k, cn))"
    by (simp add: key_cells_def row_json_def key_row_def Let_def status_text_def)
  from append_row_sim [OF r n rows cells js] show ?thesis unfolding run .
qed

lemma key_rows_h_sim:
  assumes n: "length h0 \<le> r"
  shows "length cs = length idx \<Longrightarrow> obj_at h r = Some (PList xs) \<Longrightarrow>
         list_all2 (row_rel h0 r h) xs rows \<Longrightarrow>
         \<forall>i < length idx. cs ! i \<noteq> r \<and> obj_at h (cs ! i) = Some (counter_obj (snd (idx ! i))) \<Longrightarrow>
         \<exists>h' xs'. key_rows_h r (zip (map fst idx) (map PRef cs)) h = (h', Inr ()) \<and>
           kept (length h0) h h' \<and> obj_at h' r = Some (PList xs') \<and>
           list_all2 (row_rel h0 r h') xs' (rows @ map (\<lambda>kc. (key_row kc, key_cells kc)) idx)"
proof (induction idx arbitrary: cs h xs rows)
  case Nil
  then show ?case by auto
next
  case (Cons kc idx)
  from Cons.prems(1) obtain c cs' where cs: "cs = c # cs'" and len: "length cs' = length idx"
    by (cases cs) auto
  from Cons.prems(4) [rule_format, of 0] cs have c: "c \<noteq> r" "obj_at h c = Some (counter_obj (snd kc))"
    by auto
  have rest: "\<forall>i < length idx. cs' ! i \<noteq> r \<and> obj_at h (cs' ! i) = Some (counter_obj (snd (idx ! i)))"
  proof (intro allI impI)
    fix i assume "i < length idx"
    with Cons.prems(4) [rule_format, of "Suc i"] cs
    show "cs' ! i \<noteq> r \<and> obj_at h (cs' ! i) = Some (counter_obj (snd (idx ! i)))" by simp
  qed
  from key_row_h_sim [OF Cons.prems(2) n Cons.prems(3) c(2), of "fst kc"] obtain h1 xs1 where
    s: "key_row_h r (fst kc, PRef c) h = (h1, Inr ())" and k1: "kept (length h0) h h1"
    and r1: "obj_at h1 r = Some (PList xs1)"
    and rows1: "list_all2 (row_rel h0 r h1) xs1 (rows @ [(key_row kc, key_cells kc)])"
    and fr: "\<forall>a. a \<noteq> r \<longrightarrow> a < length h \<longrightarrow> obj_at h1 a = obj_at h a"
    by auto
  have rest1: "\<forall>i < length idx. cs' ! i \<noteq> r \<and>
                 obj_at h1 (cs' ! i) = Some (counter_obj (snd (idx ! i)))"
  proof (intro allI impI)
    fix i assume i: "i < length idx"
    with rest have a: "cs' ! i \<noteq> r" "obj_at h (cs' ! i) = Some (counter_obj (snd (idx ! i)))"
      by simp_all
    from a(2) have "cs' ! i < length h" by (simp add: obj_at_Some)
    with fr a show "cs' ! i \<noteq> r \<and> obj_at h1 (cs' ! i) = Some (counter_obj (snd (idx ! i)))"
      by simp
  qed
  from Cons.IH [OF len r1 rows1 rest1] obtain h' xs' where
    t: "key_rows_h r (zip (map fst idx) (map PRef cs')) h1 = (h', Inr ())"
    and k2: "kept (length h0) h1 h'" and r2: "obj_at h' r = Some (PList xs')"
    and rows2: "list_all2 (row_rel h0 r h') xs'
                  ((rows @ [(key_row kc, key_cells kc)]) @ map (\<lambda>kc. (key_row kc, key_cells kc)) idx)"
    by blast
  have "key_rows_h r (zip (map fst (kc # idx)) (map PRef cs)) h = (h', Inr ())"
    using s t cs by simp
  moreover have "kept (length h0) h h'" using k1 k2 by (rule kept_trans)
  moreover have "list_all2 (row_rel h0 r h') xs' (rows @ map (\<lambda>kc. (key_row kc, key_cells kc)) (kc # idx))"
    using rows2 by simp
  ultimately show ?case using r2 by blast
qed

lemma unmatched_row_h_sim:
  assumes ts: "tree_store h0" and k: "kept (length h0) h0 h" and vb: "val_below (length h0) sticker"
    and r: "obj_at h r = Some (PList xs)" and n: "length h0 \<le> r"
    and rows: "list_all2 (row_rel h0 r h) xs rows"
  shows "\<exists>h' res. unmatched_row_h r sticker h = (h', res) \<and> kept (length h0) h h' \<and>
           (case res of
              Inl x \<Rightarrow> unmatched_row (jview h0 sticker) = Inl x
            | Inr w \<Rightarrow>
                (\<exists>rw xs'. unmatched_row (jview h0 sticker) = Inr rw \<and>
                   obj_at h' r = Some (PList xs') \<and>
                   list_all2 (row_rel h0 r h') xs' (rows @ [(rw, sticker_cells h0 sticker)])))"
proof -
  have sb: "\<And>s. sticker = PRef s \<Longrightarrow> s < length h0" using vb by (simp add: val_below_def)
  have g: "\<And>key. get_h h sticker key (PStr []) = get_h h0 sticker key (PStr [])"
    using k _ sb by (rule get_h_kept) simp
  have d: "val_below (length h0) (PStr [])" by (simp add: val_below_def)
  have p: "\<And>key. py_get (jview h0 sticker) key (JStr []) =
                  (case get_h h0 sticker key (PStr []) of Inl e \<Rightarrow> Inl e | Inr x \<Rightarrow> Inr (jview h0 x))"
    using py_get_view [OF ts vb, of _ "PStr []"] by simp
  show ?thesis
  proof (cases "get_h h0 sticker ''style'' (PStr [])")
    case (Inl x)
    then have "unmatched_row_h r sticker h = (h, Inl x)" by (simp add: unmatched_row_h_def g)
    moreover have "unmatched_row (jview h0 sticker) = Inl x"
      using Inl by (simp add: unmatched_row_def p)
    ultimately show ?thesis by auto
  next
    case a: (Inr a)
    show ?thesis
    proof (cases "get_h h0 sticker ''code_size'' (PStr [])")
      case (Inl x)
      then have "unmatched_row_h r sticker h = (h, Inl x)" using a by (simp add: unmatched_row_h_def g)
      moreover have "unmatched_row (jview h0 sticker) = Inl x"
        using Inl a by (simp add: unmatched_row_def p)
      ultimately show ?thesis by auto
    next
      case b: (Inr b)
      have va: "val_below (length h0) a" using ts a d by (rule get_h_below)
      have vbb: "val_below (length h0) b" using ts b d by (rule get_h_below)
      have ja: "jview h a = jview h0 a" using ts k va by (rule jview_stable)
      define f where "f = sticker_cells h0 sticker"
      have f: "f = unmatched_cells (py_str (jview h0 a)) b"
        using a b by (simp add: f_def sticker_cells_def)
      define rw where "rw = \<lparr>Challan_Description = ''(UNMATCHED SCAN) '' @ py_str (jview h0 a),
                            Size = jview h0 b,
                            Expected = 0, Received = 1, Variance = 1, Status = OVER\<rparr>"
      have run: "unmatched_row_h r sticker h = append_row r (PDict f) h"
        using a b by (simp add: unmatched_row_h_def g ja f unmatched_cells_def)
      have pure: "unmatched_row (jview h0 sticker) = Inr rw"
        using a b by (simp add: unmatched_row_def p rw_def)
      have cells: "list_all (\<lambda>kv. val_below (length h0) (snd kv)) f"
        using vbb by (simp add: f unmatched_cells_def val_below_def)
      have js: "JObj (map (\<lambda>kv. (fst kv, jview h0 (snd kv))) f) = row_json rw"
        by (simp add: f unmatched_cells_def rw_def row_json_def status_text_def)
      from append_row_sim [OF r n rows cells js] obtain h' xs' where
        "append_row r (PDict f) h = (h', Inr ())" "kept (length h0) h h'"
        "obj_at h' r = Some (PList xs')" "list_all2 (row_rel h0 r h') xs' (rows @ [(rw, f)])"
        by blast
      with run pure show ?thesis unfolding f_def by auto
    qed
  qed
qed

lemma unmatched_rows_h_sim:
  assumes ts: "tree_store h0" and n: "length h0 \<le> r"
  shows "kept (length h0) h0 h \<Longrightarrow> \<forall>sv \<in> set svs. val_below (length h0) sv \<Longrightarrow>
         obj_at h r = Some (PList xs) \<Longrightarrow> list_all2 (row_rel h0 r h) xs rows \<Longrightarrow>
         \<exists>h' res. unmatched_rows_h r svs h = (h', res) \<and> kept (length h0) h0 h' \<and>
           (case res of
              Inl x \<Rightarrow> unmatched_rows (map (jview h0) svs) = Inl x
            | Inr w \<Rightarrow>
                (\<exists>rs xs'. unmatched_rows (map (jview h0) svs) = Inr rs \<and>
                   length rs = length svs \<and> obj_at h' r = Some (PList xs') \<and>
                   list_all2 (row_rel h0 r h') xs' (rows @ zip rs (map (sticker_cells h0) svs))))"
proof (induction svs arbitrary: h xs rows)
  case Nil
  then show ?case by auto
next
  case (Cons sv svs)
  from Cons.prems(2) have vb: "val_below (length h0) sv"
    and rest: "\<forall>x \<in> set svs. val_below (length h0) x" by simp_all
  from unmatched_row_h_sim [OF ts Cons.prems(1) vb Cons.prems(3) n Cons.prems(4)] obtain h1 r1 where
    s: "unmatched_row_h r sv h = (h1, r1)" and k1: "kept (length h0) h h1"
    and c: "case r1 of
              Inl x \<Rightarrow> unmatched_row (jview h0 sv) = Inl x
            | Inr w \<Rightarrow>
                (\<exists>rw xs'. unmatched_row (jview h0 sv) = Inr rw \<and>
                   obj_at h1 r = Some (PList xs') \<and>
                   list_all2 (row_rel h0 r h1) xs' (rows @ [(rw, sticker_cells h0 sv)]))"
    by blast
  have k01: "kept (length h0) h0 h1" using Cons.prems(1) k1 by (rule kept_trans)
  show ?case
  proof (cases r1)
    case (Inl x)
    with s k01 c show ?thesis by auto
  next
    case (Inr w)
    with c obtain rw xs1 where m: "unmatched_row (jview h0 sv) = Inr rw"
      and r1: "obj_at h1 r = Some (PList xs1)"
      and rows1: "list_all2 (row_rel h0 r h1) xs1 (rows @ [(rw, sticker_cells h0 sv)])"
      by auto
    from Cons.IH [OF k01 rest r1 rows1] obtain h' res where
      t: "unmatched_rows_h r svs h1 = (h', res)" "kept (length h0) h0 h'"
      "case res of
              Inl x \<Rightarrow> unmatched_rows (map (jview h0) svs) = Inl x
            | Inr w \<Rightarrow>
                (\<exists>rs xs'. unmatched_rows (map (jview h0) svs) = Inr rs \<and>
                   length rs = length svs \<and> obj_at h' r = Some (PList xs') \<and>
                   list_all2 (row_rel h0 r h') xs'
                     ((rows @ [(rw, sticker_cells h0 sv)]) @ zip rs (map (sticker_cells h0) svs)))"
      by blast
    have run: "unmatched_rows_h r (sv # svs) h = (h', res)" using s Inr t(1) by simp
    have "case res of
              Inl x \<Rightarrow> unmatched_rows (map (jview h0) (sv # svs)) = Inl x
            | Inr w \<Rightarrow>
                (\<exists>rs xs'. unmatched_rows (map (jview h0) (sv # svs)) = Inr rs \<and>
                   length rs = length (sv # svs) \<and> obj_at h' r = Some (PList xs') \<and>
                   list_all2 (row_rel h0 r h') xs' (rows @ zip rs (map (sticker_cells h0) (sv # svs))))"
    proof (cases res)
      case (Inl x)
      with t(3) m show ?thesis by simp
    next
      case (Inr w')
      with t(3) obtain rs xs' where
        u: "unmatched_rows (map (jview h0) svs) = Inr rs" "length rs = length svs"
        "obj_at h' r = Some (PList xs')"
        "list_all2 (row_rel h0 r h') xs'
           ((rows @ [(rw, sticker_cells h0 sv)]) @ zip rs (map (sticker_cells h0) svs))"
        by auto
      have "unmatched_rows (map (jview h0) (sv # svs)) = Inr (rw # rs)" using m u(1) by simp
      moreover have "list_all2 (row_rel h0 r h') xs'
                       (rows @ zip (rw # rs) (map (sticker_cells h0) (sv # svs)))"
        using u(4) by simp
      moreover have "length (rw # rs) = length (sv # svs)" using u(2) by simp
      ultimately have "\<exists>rs xs'. unmatched_rows (map (jview h0) (sv # svs)) = Inr rs \<and>
                   length rs = length (sv # svs) \<and> obj_at h' r = Some (PList xs') \<and>
                   list_all2 (row_rel h0 r h') xs' (rows @ zip rs (map (sticker_cells h0) (sv # svs)))"
        using u(3) by blast
      then show ?thesis unfolding Inr by simp
    qed
    with run t(2) show ?thesis by blast
  qed
qed

lemma report_view:
  assumes ts: "tree_store h0" and k: "kept (length h0) h0 h"
    and r: "obj_at h r = Some (PList xs)" and n: "length h0 \<le> r"
    and rows: "list_all2 (row_rel h0 r h) xs rows"
  shows "jview h (PRef r) = JArr (map row_json (map fst rows))"
proof -
  from r have rl: "r < length h" by (simp add: obj_at_Some)
  then obtain m where m: "length h = Suc m" by (cases "length h") auto
  have v: "jview h (PRef r) = JArr (map (view m h) xs)"
    using r by (simp add: jview_def m)
  have "map (view m h) xs = map row_json (map fst rows)"
  proof (rule nth_equalityI)
    show "length (map (view m h) xs) = length (map row_json (map fst rows))"
      using rows by (simp add: list_all2_lengthD)
  next
    fix i assume "i < length (map (view m h) xs)"
    then have i: "i < length xs" by simp
    with rows have rr: "row_rel h0 r h (xs ! i) (rows ! i)" by (simp add: list_all2_nthD)
    then obtain \<rho> where x: "xs ! i = PRef \<rho>" and \<rho>: "length h0 \<le> \<rho>" "\<rho> \<noteq> r"
      and o: "obj_at h \<rho> = Some (PDict (snd (rows ! i)))"
      and cells: "list_all (\<lambda>kv. val_below (length h0) (snd kv)) (snd (rows ! i))"
      and js: "JObj (map (\<lambda>kv. (fst kv, jview h0 (snd kv))) (snd (rows ! i))) = row_json (fst (rows ! i))"
      by (auto simp: row_rel_def split: pval.splits)
    let ?f = "snd (rows ! i)"
    from o have "\<rho> < length h" by (simp add: obj_at_Some)
    with rl \<rho> n m obtain m' where m': "m = Suc m'" and le: "length h0 \<le> m'"
      by (cases m) auto
    have "view m h (PRef \<rho>) = JObj (map (\<lambda>kv. (fst kv, view m' h (snd kv))) ?f)"
      using o by (simp add: m')
    also have "map (\<lambda>kv. (fst kv, view m' h (snd kv))) ?f = map (\<lambda>kv. (fst kv, jview h0 (snd kv))) ?f"
    proof (rule map_cong [OF refl])
      fix kv assume "kv \<in> set ?f"
      with cells have "val_below (length h0) (snd kv)" by (simp add: list_all_iff)
      from view_stable [OF ts k order_refl this order_refl le order_refl]
      show "(fst kv, view m' h (snd kv)) = (fst kv, jview h0 (snd kv))" by (simp add: jview_def)
    qed
    finally show "map (view m h) xs ! i = map row_json (map fst rows) ! i"
      using i x js rows by (simp add: list_all2_lengthD)
  qed
  with v show ?thesis by simp
qed

lemma report_rel_view:
  assumes ts: "tree_store h0" and k: "kept (length h0) h0 h" and rel: "report_rel h0 h v idx rs un"
  shows "jview h v = JArr (map row_json (map key_row idx @ rs))"
proof -
  from rel obtain r xs where v: "v = PRef r" and n: "length h0 \<le> r" and len: "length rs = length un"
    and r: "obj_at h r = Some (PList xs)"
    and rows: "list_all2 (row_rel h0 r h) xs
                 (map (\<lambda>kc. (key_row kc, key_cells kc)) idx @ zip rs (map (sticker_cells h0) un))"
    by (auto simp: report_rel_def split: pval.splits option.splits pobj.splits)
  have "map fst (zip rs (map (sticker_cells h0) un)) = rs"
    using len by simp
  then have "map fst (map (\<lambda>kc. (key_row kc, key_cells kc)) idx @ zip rs (map (sticker_cells h0) un))
        = map key_row idx @ rs"
    by (simp add: comp_def)
  with report_view [OF ts k r n rows] v show ?thesis by (simp only:)
qed

lemma obj_at_alloc: "obj_at h a = Some x \<Longrightarrow> obj_at (h @ [ob]) a = Some x"
  by (auto simp: obj_at_def nth_append split: if_splits)

lemma index_rel_alloc:
  assumes "index_rel n e h cs idx"
  shows "index_rel n e (h @ [ob]) cs idx"
  using assms unfolding index_rel_def by (simp add: obj_at_alloc)

lemma index_rel_bound:
  assumes "index_rel n e h cs idx"
  shows "e < length h \<and> (\<forall>c \<in> set cs. c < length h)"
proof -
  from assms have e: "obj_at h e = Some (PIndex (zip (map fst idx) (map PRef cs)))"
    and len: "length cs = length idx"
    and c: "\<forall>i < length idx. obj_at h (cs ! i) = Some (counter_obj (snd (idx ! i)))"
    unfolding index_rel_def by blast+
  from e have "e < length h" by (simp add: obj_at_Some)
  moreover have "\<forall>c \<in> set cs. c < length h"
  proof
    fix a assume "a \<in> set cs"
    then obtain i where "i < length cs" "cs ! i = a" by (auto simp: in_set_conv_nth)
    with c len show "a < length h" by (auto simp: obj_at_Some)
  qed
  ultimately show ?thesis by blast
qed

lemma report_h_sim:
  assumes ts: "tree_store h0" and k: "kept (length h0) h0 h"
    and rel: "index_rel (length h0) e h cs idx"
    and u: "obj_at h u = Some (PList vs)" and uv: "\<forall>v \<in> set vs. val_below (length h0) v"
  shows "\<exists>h' res. report_h e u h = (h', res) \<and> kept (length h0) h0 h' \<and>
           (case res of
              Inl x \<Rightarrow> unmatched_rows (map (jview h0) vs) = Inl x
            | Inr None \<Rightarrow> False
            | Inr (Some v) \<Rightarrow>
                (\<exists>rs. unmatched_rows (map (jview h0) vs) = Inr rs \<and>
                      report_rel h0 h' v idx rs vs))"
proof -
  let ?r = "length h"
  let ?h1 = "h @ [PList []]"
  from k have n: "length h0 \<le> ?r" by (simp add: kept_def)
  have k1: "kept (length h0) h0 ?h1"
    using k n by (simp add: kept_def nth_append)
  from index_rel_bound [OF rel] have b: "e < length h" "\<forall>c \<in> set cs. c < length h" by blast+
  from rel have e: "obj_at h e = Some (PIndex (zip (map fst idx) (map PRef cs)))"
    and len: "length cs = length idx"
    and c: "\<forall>i < length idx. obj_at h (cs ! i) = Some (counter_obj (snd (idx ! i)))"
    unfolding index_rel_def by blast+
  have e1: "obj_at ?h1 e = Some (PIndex (zip (map fst idx) (map PRef cs)))"
    using e by (rule obj_at_alloc)
  have u1: "obj_at ?h1 u = Some (PList vs)" using u by (rule obj_at_alloc)
  have r1: "obj_at ?h1 ?r = Some (PList [])" by (simp add: obj_at_snoc)
  have c1: "\<forall>i < length idx. cs ! i \<noteq> ?r \<and>
              obj_at ?h1 (cs ! i) = Some (counter_obj (snd (idx ! i)))"
  proof (intro allI impI)
    fix i assume i: "i < length idx"
    with len b(2) have "cs ! i < length h" by simp
    moreover from c i have "obj_at ?h1 (cs ! i) = Some (counter_obj (snd (idx ! i)))"
      by (simp add: obj_at_alloc)
    ultimately show "cs ! i \<noteq> ?r \<and> obj_at ?h1 (cs ! i) = Some (counter_obj (snd (idx ! i)))"
      by simp
  qed
  have rows0: "list_all2 (row_rel h0 ?r ?h1) [] []" by simp
  from key_rows_h_sim [OF n len r1 rows0 c1] obtain h2 xs2 where
    kr: "key_rows_h ?r (zip (map fst idx) (map PRef cs)) ?h1 = (h2, Inr ())"
    and k2: "kept (length h0) ?h1 h2" and r2: "obj_at h2 ?r = Some (PList xs2)"
    and rows2: "list_all2 (row_rel h0 ?r h2) xs2 ([] @ map (\<lambda>kc. (key_row kc, key_cells kc)) idx)"
    by blast
  have k02: "kept (length h0) h0 h2" using k1 k2 by (rule kept_trans)
  from unmatched_rows_h_sim [OF ts n k02 uv r2 rows2] obtain h3 res where
    ur: "unmatched_rows_h ?r vs h2 = (h3, res)" and k3: "kept (length h0) h0 h3"
    and c3: "case res of
              Inl x \<Rightarrow> unmatched_rows (map (jview h0) vs) = Inl x
            | Inr w \<Rightarrow>
                (\<exists>rs xs'. unmatched_rows (map (jview h0) vs) = Inr rs \<and>
                   length rs = length vs \<and> obj_at h3 ?r = Some (PList xs') \<and>
                   list_all2 (row_rel h0 ?r h3) xs'
                     (([] @ map (\<lambda>kc. (key_row kc, key_cells kc)) idx) @ zip rs (map (sticker_cells h0) vs)))"
    by blast
  show ?thesis
  proof (cases res)
    case (Inl x)
    then have "report_h e u h = (h3, Inl x)"
      using e1 u1 kr ur by (simp add: report_h_def alloc_def)
    with k3 c3 Inl show ?thesis by auto
  next
    case (Inr w)
    then have run: "report_h e u h = (h3, Inr (Some (PRef ?r)))"
      using e1 u1 kr ur by (simp add: report_h_def alloc_def)
    from c3 Inr obtain rs xs' where p: "unmatched_rows (map (jview h0) vs) = Inr rs"
      and lr: "length rs = length vs"
      and r3: "obj_at h3 ?r = Some (PList xs')"
      and rows3: "list_all2 (row_rel h0 ?r h3) xs'
                    (map (\<lambda>kc. (key_row kc, key_cells kc)) idx @ zip rs (map (sticker_cells h0) vs))"
      by auto
    have "report_rel h0 h3 (PRef ?r) idx rs vs"
      using n lr r3 rows3 by (simp add: report_rel_def)
    with run k3 p show ?thesis by auto
  qed
qed


lemma match_h_sim:
  assumes ts: "tree_store h0" and k: "kept (length h0) h0 h"
    and rel: "index_rel (length h0) e h cs idx"
    and it: "iter_h h0 stickers = Inr svs"
  shows "\<exists>h' res. match_h e stickers h = (h', res) \<and> kept (length h0) h0 h' \<and>
           (case res of
              Inl x \<Rightarrow>
                (case match_stickers (idx, []) (map (jview h0) svs) of
                   Inl e \<Rightarrow> Inl e
                 | Inr m \<Rightarrow>
                     (case unmatched_rows (snd m) of
                        Inl e \<Rightarrow> Inl e
                      | Inr rs \<Rightarrow> Inr (Report (map key_row (fst m) @ rs)))) = Inl x
            | Inr None \<Rightarrow> False
            | Inr (Some v) \<Rightarrow>
                (\<exists>idx' rs.
                   match_stickers (idx, []) (map (jview h0) svs)
                     = Inr (idx', map (jview h0) (unmatched_of h0 (map fst idx) svs)) \<and>
                   map fst idx' = map fst idx \<and>
                   unmatched_rows (map (jview h0) (unmatched_of h0 (map fst idx) svs)) = Inr rs \<and>
                   report_rel h0 h' v idx' rs (unmatched_of h0 (map fst idx) svs)))"
proof -
  let ?u = "length h"
  let ?h1 = "h @ [PList []]"
  let ?un = "unmatched_of h0 (map fst idx) svs"
  from k have n: "length h0 \<le> ?u" by (simp add: kept_def)
  have k1: "kept (length h0) h0 ?h1"
    using k n by (simp add: kept_def nth_append)
  from index_rel_bound [OF rel] have b: "e < length h" "\<forall>c \<in> set cs. c < length h" by blast+
  have ue: "?u \<noteq> e" using b(1) by simp
  have uc: "?u \<notin> set cs" using b(2) by auto
  have rel1: "index_rel (length h0) e ?h1 cs idx" using rel by (rule index_rel_alloc)
  have u1: "obj_at ?h1 ?u = Some (PList [])" by (simp add: obj_at_snoc)
  have it1: "iter_h ?h1 stickers = Inr svs" using k1 it by (rule iter_h_kept)
  have vb: "\<forall>sv \<in> set svs. val_below (length h0) sv"
    using iter_h_below [OF ts it] by blast
  from match_stickers_h_sim [OF ts ue uc n k1 vb rel1 u1] obtain h2 r2 where
    ms: "match_stickers_h e ?u svs ?h1 = (h2, r2)" and k2: "kept (length h0) h0 h2"
    and c2: "case r2 of
              Inl x \<Rightarrow> match_stickers (idx, map (jview h0) []) (map (jview h0) svs) = Inl x
            | Inr w \<Rightarrow>
                (\<exists>idx'. match_stickers (idx, map (jview h0) []) (map (jview h0) svs)
                               = Inr (idx', map (jview h0) ([] @ ?un)) \<and>
                        map fst idx' = map fst idx \<and>
                        index_rel (length h0) e h2 cs idx' \<and>
                        obj_at h2 ?u = Some (PList ([] @ ?un)))"
    by blast
  show ?thesis
  proof (cases r2)
    case (Inl x)
    then have "match_h e stickers h = (h2, Inl x)"
      using it1 ms by (simp add: match_h_def alloc_def)
    with k2 c2 Inl show ?thesis by auto
  next
    case (Inr w)
    with c2 obtain idx' where
      m: "match_stickers (idx, []) (map (jview h0) svs) = Inr (idx', map (jview h0) ?un)"
      and keys: "map fst idx' = map fst idx"
      and rel2: "index_rel (length h0) e h2 cs idx'"
      and u2: "obj_at h2 ?u = Some (PList ?un)"
      by auto
    have uv: "\<forall>v \<in> set ?un. val_below (length h0) v" using vb by (simp add: unmatched_of_def)
    from report_h_sim [OF ts k2 rel2 u2 uv] obtain h3 res where
      rp: "report_h e ?u h2 = (h3, res)" and k3: "kept (length h0) h0 h3"
      and c3: "case res of
              Inl x \<Rightarrow> unmatched_rows (map (jview h0) ?un) = Inl x
            | Inr None \<Rightarrow> False
            | Inr (Some v) \<Rightarrow>
                (\<exists>rs. unmatched_rows (map (jview h0) ?un) = Inr rs \<and>
                      report_rel h0 h3 v idx' rs ?un)"
      by blast
    have run: "match_h e stickers h = (h3, res)"
      using it1 ms Inr rp by (simp add: match_h_def alloc_def)
    have "case res of
              Inl x \<Rightarrow>
                (case match_stickers (idx, []) (map (jview h0) svs) of
                   Inl e \<Rightarrow> Inl e
                 | Inr m \<Rightarrow>
                     (case unmatched_rows (snd m) of
                        Inl e \<Rightarrow> Inl e
                      | Inr rs \<Rightarrow> Inr (Report (map key_row (fst m) @ rs)))) = Inl x
            | Inr None \<Rightarrow> False
            | Inr (Some v) \<Rightarrow>
                (\<exists>idx' rs.
                   match_stickers (idx, []) (map (jview h0) svs)
                     = Inr (idx', map (jview h0) ?un) \<and>
                   map fst idx' = map fst idx \<and>
                   unmatched_rows (map (jview h0) ?un) = Inr rs \<and>
                   report_rel h0 h3 v idx' rs ?un)"
    proof (cases res)
      case (Inl x)
      with c3 show ?thesis unfolding m by simp
    next
      case (Inr ov)
      show ?thesis
      proof (cases ov)
        case None
        with c3 Inr show ?thesis by simp
      next
        case (Some v)
        with c3 Inr obtain rs where "unmatched_rows (map (jview h0) ?un) = Inr rs"
          "report_rel h0 h3 v idx' rs ?un" by auto
        with m keys show ?thesis unfolding Inr Some by auto
      qed
    qed
    with run k3 show ?thesis by blast
  qed
qed

lemma iter_h_kept_eq:
  assumes "kept (length h0) h0 h" and "val_below (length h0) v"
  shows "iter_h h v = iter_h h0 v"
proof (cases v)
  case (PRef a)
  with assms(2) have "a < length h0" by (simp add: val_below_def)
  with assms(1) have "obj_at h a = obj_at h0 a" by (auto simp: obj_at_def kept_def)
  with PRef show ?thesis by (simp add: iter_h_def)
qed (simp_all add: iter_h_def)

lemma lines_sim:
  assumes ts: "tree_store h" and vb: "val_below (length h) challan"
    and k: "kept (length h) h h2" and d: "obj_at h2 d = Some (PList [])"
  shows "case get_h h2 challan ''lines'' (PRef d) of
           Inl x \<Rightarrow> challan_lines (jview h challan) = Inl x
         | Inr lv \<Rightarrow>
             (case iter_h h2 lv of
                Inl x \<Rightarrow> challan_lines (jview h challan) = Inl x
              | Inr lines \<Rightarrow>
                  challan_lines (jview h challan) = Inr (map (jview h) lines) \<and>
                  (\<forall>l \<in> set lines. val_below (length h) l))"
proof (cases challan)
  case (PRef a)
  with vb have a: "a < length h" by (simp add: val_below_def)
  with k have o: "obj_at h2 a = Some (h ! a)" by (auto simp: obj_at_def kept_def)
  show ?thesis
  proof (cases "h ! a")
    case (PDict f)
    have jv: "jview h challan = JObj (map (\<lambda>kv. (fst kv, jview h (snd kv))) f)"
      using PDict by (simp add: PRef jview_ref [OF ts a])
    show ?thesis
    proof (cases "map_of f ''lines''")
      case None
      then have "get_h h2 challan ''lines'' (PRef d) = Inr (PRef d)"
        using o PDict PRef by (simp add: get_h_def)
      moreover have "iter_h h2 (PRef d) = Inr []" using d by (simp add: iter_h_def)
      moreover have "challan_lines (jview h challan) = Inr []"
        using None by (simp add: jv challan_lines_def py_get_def dict_get_def map_of_view py_iter_def)
      ultimately show ?thesis by simp
    next
      case (Some x)
      then have "(''lines'', x) \<in> set f" by (rule map_of_SomeD)
      moreover from tree_storeD [OF ts a] PDict
      have "list_all (\<lambda>kv. val_below a (snd kv)) f" by (simp add: obj_below_def)
      ultimately have "val_below a x" by (auto simp: list_all_iff)
      then have vx: "val_below (length h) x" using a by (simp add: val_below_mono)
      have g: "get_h h2 challan ''lines'' (PRef d) = Inr x"
        using o PDict PRef Some by (simp add: get_h_def)
      have i: "iter_h h2 x = iter_h h x" using k vx by (rule iter_h_kept_eq)
      have c: "challan_lines (jview h challan) = py_iter (jview h x)"
        using Some by (simp add: jv challan_lines_def py_get_def dict_get_def map_of_view)
      show ?thesis
      proof (cases "iter_h h x")
        case (Inl e)
        with g i c py_iter_view [OF ts vx] show ?thesis by simp
      next
        case (Inr lines)
        with iter_h_below [OF ts this] g i c py_iter_view [OF ts vx] show ?thesis by simp
      qed
    qed
  qed (use o PRef a in \<open>simp_all add: jview_ref [OF ts a] get_h_def challan_lines_def py_get_def\<close>)
qed (simp_all add: get_h_def challan_lines_def py_get_def)


lemma kept_below: "kept n h h' \<Longrightarrow> m \<le> n \<Longrightarrow> kept m h h'"
  by (simp add: kept_def)

lemma run_h_sim:
  assumes ts: "tree_store h0" and k: "kept (length h0) h0 h"
    and vb: "val_below (length h0) challan" and it: "iter_h h0 stickers = Inr svs"
  shows "case snd (run_h h challan stickers) of
           Inl x \<Rightarrow> run_reconciliation (run_session h0 challan svs) = Inl x
         | Inr None \<Rightarrow> run_reconciliation (run_session h0 challan svs) = Inr NoChallan
         | Inr (Some v) \<Rightarrow>
             (\<exists>ls idx idx' rs.
                challan_lines (jview h0 challan) = Inr ls \<and> build_index [] ls = Inr idx \<and>
                match_stickers (idx, []) (map (jview h0) svs)
                  = Inr (idx', map (jview h0) (unmatched_of h0 (map fst idx) svs)) \<and>
                map fst idx' = map fst idx \<and>
                unmatched_rows (map (jview h0) (unmatched_of h0 (map fst idx) svs)) = Inr rs \<and>
                run_reconciliation (run_session h0 challan svs) = Inr (Report (map key_row idx' @ rs)) \<and>
                report_rel h0 (fst (run_h h challan stickers)) v idx' rs
                  (unmatched_of h0 (map fst idx) svs))"
proof -
  have j: "jview h challan = jview h0 challan" using ts k vb by (rule jview_stable)
  show ?thesis
  proof (cases "truthy (jview h0 challan)")
    case False
    then show ?thesis by (simp add: run_h_def run_reconciliation_def run_session_def j)
  next
    case True
    show ?thesis
    proof (cases "py_in ''lines'' (jview h0 challan)")
      case (Inl x)
      with True show ?thesis by (simp add: run_h_def run_reconciliation_def run_session_def j)
    next
      case (Inr b)
      show ?thesis
      proof (cases b)
        case False
        with True Inr show ?thesis by (simp add: run_h_def run_reconciliation_def run_session_def j)
      next
        case b: True
        let ?e = "length h"
        let ?d = "Suc (length h)"
        let ?h2 = "h @ [PIndex [], PList []]"
        let ?S = "run_session h0 challan svs"
        from k have n: "length h0 \<le> length h" by (simp add: kept_def)
        have k2: "kept (length h0) h0 ?h2" using k n by (simp add: kept_def nth_append)
        have d: "obj_at ?h2 ?d = Some (PList [])" by (simp add: obj_at_def nth_append)
        have rel: "index_rel (length h0) ?e ?h2 [] []"
          using n by (simp add: index_rel_def obj_at_def nth_append)
        have run: "run_h h challan stickers =
               (case get_h ?h2 challan ''lines'' (PRef ?d) of
                    Inl x \<Rightarrow> (?h2, Inl x)
                  | Inr lv \<Rightarrow>
                      (case iter_h ?h2 lv of
                         Inl x \<Rightarrow> (?h2, Inl x)
                       | Inr lines \<Rightarrow>
                           (case build_index_h ?e lines ?h2 of
                              (h', Inl x) \<Rightarrow> (h', Inl x)
                            | (h', Inr w) \<Rightarrow> match_h ?e stickers h')))"
          using True Inr b
          by (simp add: run_h_def alloc_def Let_def j split: sum.splits prod.splits)
        have pure: "run_reconciliation ?S =
           (case challan_lines (jview h0 challan) of
            Inl e \<Rightarrow> Inl e
          | Inr lines \<Rightarrow>
       (case build_index [] lines of
            Inl e \<Rightarrow> Inl e
          | Inr expected_items \<Rightarrow>
       (case match_stickers (expected_items, []) (map (jview h0) svs) of
            Inl e \<Rightarrow> Inl e
          | Inr m \<Rightarrow>
       (case unmatched_rows (snd m) of
            Inl e \<Rightarrow> Inl e
          | Inr rs \<Rightarrow> Inr (Report (map key_row (fst m) @ rs))))))"
          using True Inr b
          by (simp add: run_reconciliation_def run_session_def split: sum.splits)
        note ls = lines_sim [OF ts vb k2 d]
        show ?thesis
        proof (cases "get_h ?h2 challan ''lines'' (PRef ?d)")
          case (Inl x)
          with ls run pure show ?thesis by simp
        next
          case lv: (Inr lv)
          show ?thesis
          proof (cases "iter_h ?h2 lv")
            case (Inl x)
            with ls lv run pure show ?thesis by simp
          next
            case lines: (Inr lines)
            with ls lv have cl: "challan_lines (jview h0 challan) = Inr (map (jview h0) lines)"
              and lb: "\<forall>l \<in> set lines. val_below (length h0) l" by simp_all
            from build_index_h_sim [OF ts k2 lb rel] obtain h3 r3 where
              bi: "build_index_h ?e lines ?h2 = (h3, r3)" and k3: "kept (length h0) h0 h3"
              and c3: "case r3 of
                Inl x \<Rightarrow> build_index [] (map (jview h0) lines) = Inl x
              | Inr w \<Rightarrow> (\<exists>cs' idx'. build_index [] (map (jview h0) lines) = Inr idx' \<and>
                                     index_rel (length h0) ?e h3 cs' idx')"
              by blast
            show ?thesis
            proof (cases r3)
              case (Inl x)
              with c3 bi lv lines run pure cl show ?thesis by simp
            next
              case (Inr w)
              with c3 obtain cs idx where bp: "build_index [] (map (jview h0) lines) = Inr idx"
                and rel3: "index_rel (length h0) ?e h3 cs idx" by auto
              let ?un = "unmatched_of h0 (map fst idx) svs"
              from match_h_sim [OF ts k3 rel3 it] obtain h4 res where
                mh: "match_h ?e stickers h3 = (h4, res)"
                and c4: "case res of
                Inl x \<Rightarrow>
                  (case match_stickers (idx, []) (map (jview h0) svs) of
                     Inl e \<Rightarrow> Inl e
                   | Inr m \<Rightarrow>
                       (case unmatched_rows (snd m) of
                          Inl e \<Rightarrow> Inl e
                        | Inr rs \<Rightarrow> Inr (Report (map key_row (fst m) @ rs)))) = Inl x
              | Inr None \<Rightarrow> False
              | Inr (Some v) \<Rightarrow>
                  (\<exists>idx' rs.
                     match_stickers (idx, []) (map (jview h0) svs) = Inr (idx', map (jview h0) ?un) \<and>
                     map fst idx' = map fst idx \<and>
                     unmatched_rows (map (jview h0) ?un) = Inr rs \<and>
                     report_rel h0 h4 v idx' rs ?un)"
                by blast
              have run': "run_h h challan stickers = (h4, res)"
                using run lv lines bi Inr mh by simp
              have pure': "run_reconciliation ?S =
                  (case match_stickers (idx, []) (map (jview h0) svs) of
                        Inl e \<Rightarrow> Inl e
                      | Inr m \<Rightarrow>
                          (case unmatched_rows (snd m) of
                             Inl e \<Rightarrow> Inl e
                           | Inr rs \<Rightarrow> Inr (Report (map key_row (fst m) @ rs))))"
                using pure cl bp by simp
              show ?thesis
              proof (cases res)
                case (Inl x)
                with c4 show ?thesis unfolding run' pure' by simp
              next
                case (Inr ov)
                show ?thesis
                proof (cases ov)
                  case None
                  with c4 Inr show ?thesis by simp
                next
                  case (Some v)
                  with c4 Inr obtain idx' rs where
                    m: "match_stickers (idx, []) (map (jview h0) svs) = Inr (idx', map (jview h0) ?un)"
                    and keys: "map fst idx' = map fst idx"
                    and ur: "unmatched_rows (map (jview h0) ?un) = Inr rs"
                    and rr: "report_rel h0 h4 v idx' rs ?un"
                    by auto
                  have "run_reconciliation ?S = Inr (Report (map key_row idx' @ rs))"
                    unfolding pure' using m ur by simp
                  with cl bp m keys ur rr show ?thesis
                    unfolding run' Inr Some by auto
                qed
              qed
            qed
          qed
        qed
      qed
    qed
  qed
qed

lemma run_h_refines_kept:
  assumes ts: "tree_store h0" and k: "kept (length h0) h0 h"
    and vb: "val_below (length h0) challan" and it: "iter_h h0 stickers = Inr svs"
  shows "case snd (run_h h challan stickers) of
           Inl x \<Rightarrow> run_reconciliation (run_session h0 challan svs) = Inl x
         | Inr None \<Rightarrow> run_reconciliation (run_session h0 challan svs) = Inr NoChallan
         | Inr (Some v) \<Rightarrow>
             (\<exists>rows. run_reconciliation (run_session h0 challan svs) = Inr (Report rows) \<and>
                     jview (fst (run_h h challan stickers)) v = JArr (map row_json rows))"
proof -
  let ?h' = "fst (run_h h challan stickers)"
  from k have "length h0 \<le> length h" by (simp add: kept_def)
  with run_h_kept [of h challan stickers] have "kept (length h0) h ?h'" by (rule kept_below)
  with k have k': "kept (length h0) h0 ?h'" by (rule kept_trans)
  note s = run_h_sim [OF ts k vb it]
  show ?thesis
  proof (cases "snd (run_h h challan stickers)")
    case (Inl x)
    with s show ?thesis by simp
  next
    case (Inr ov)
    show ?thesis
    proof (cases ov)
      case None
      with s Inr show ?thesis by simp
    next
      case (Some v)
      from s have "\<exists>ls idx idx' rs.
                challan_lines (jview h0 challan) = Inr ls \<and> build_index [] ls = Inr idx \<and>
                match_stickers (idx, []) (map (jview h0) svs)
                  = Inr (idx', map (jview h0) (unmatched_of h0 (map fst idx) svs)) \<and>
                map fst idx' = map fst idx \<and>
                unmatched_rows (map (jview h0) (unmatched_of h0 (map fst idx) svs)) = Inr rs \<and>
                run_reconciliation (run_session h0 challan svs) = Inr (Report (map key_row idx' @ rs)) \<and>
                report_rel h0 ?h' v idx' rs (unmatched_of h0 (map fst idx) svs)"
        unfolding Inr Some by simp
      then obtain idx :: index and idx' rs where
        r: "run_reconciliation (run_session h0 challan svs) = Inr (Report (map key_row idx' @ rs))"
        and rr: "report_rel h0 ?h' v idx' rs (unmatched_of h0 (map fst idx) svs)"
        by blast
      from report_rel_view [OF ts k' rr] r show ?thesis unfolding Inr Some by auto
    qed
  qed
qed

lemma run_h_refines:
  assumes ts: "tree_store h" and vb: "val_below (length h) challan"
    and it: "iter_h h stickers = Inr svs"
  shows "case snd (run_h h challan stickers) of
           Inl x \<Rightarrow> run_reconciliation (run_session h challan svs) = Inl x
         | Inr None \<Rightarrow> run_reconciliation (run_session h challan svs) = Inr NoChallan
         | Inr (Some v) \<Rightarrow>
             (\<exists>rows. run_reconciliation (run_session h challan svs) = Inr (Report rows) \<and>
                     jview (fst (run_h h challan stickers)) v = JArr (map row_json rows))"
  using ts kept_refl vb it by (rule run_h_refines_kept)

section \<open>The claims about the store\<close>

lemma no_match_cells:
  assumes ts: "tree_store h" and vb: "val_below (length h) sv" and nm: "no_match ks (jview h sv)"
  shows "\<exists>a b. get_h h sv ''code_size'' (PStr []) = Inr b \<and>
               sticker_cells h sv = unmatched_cells a b"
proof -
  from nm obtain sk where "sticker_key (jview h sv) = Inr sk"
    by (auto simp: no_match_def split: sum.splits)
  then have "is_record (jview h sv)" unfolding is_record_iff by blast
  then obtain f where f: "jview h sv = JObj f" unfolding is_record_JObj ..
  have "\<And>key. \<exists>x. get_h h sv key (PStr []) = Inr x"
  proof -
    fix key
    from py_get_view [OF ts vb, of key "PStr []"] f
    show "\<exists>x. get_h h sv key (PStr []) = Inr x"
      by (cases "get_h h sv key (PStr [])") (simp_all add: py_get_def)
  qed
  then obtain a b where "get_h h sv ''style'' (PStr []) = Inr a"
    and "get_h h sv ''code_size'' (PStr []) = Inr b" by blast
  then show ?thesis by (auto simp: sticker_cells_def)
qed

lemma key_cells_scalar: "cell \<in> set (key_cells kc) \<Longrightarrow> snd cell \<noteq> PRef a"
  by (auto simp: key_cells_def Let_def)

lemma unmatched_cells_size:
  "(''Size'', b) \<in> set (unmatched_cells a b)"
  "cell \<in> set (unmatched_cells a b) \<Longrightarrow>
     (if fst cell = ''Size'' then snd cell = b else (\<forall>c. snd cell \<noteq> PRef c))"
  by (auto simp: unmatched_cells_def)

lemma run_h_report:
  assumes ts: "tree_store h" and vb: "val_below (length h) challan"
    and it: "iter_h h stickers = Inr svs"
    and run: "run_h h challan stickers = (h', Inr (Some v))"
  shows "\<exists>r xs ls ks un.
           v = PRef r \<and> length h \<le> r \<and> obj_at h' r = Some (PList xs) \<and>
           challan_lines (jview h challan) = Inr ls \<and> map line_key ls = map Inr ks \<and>
           un = unmatched_of h (first_seen ks) svs \<and>
           length xs = length (first_seen ks) + length un \<and>
           (\<forall>i < length (first_seen ks). \<exists>\<rho> f.
              xs ! i = PRef \<rho> \<and> length h \<le> \<rho> \<and> obj_at h' \<rho> = Some (PDict f) \<and>
              (\<forall>cell \<in> set f. \<forall>a. snd cell \<noteq> PRef a)) \<and>
           (\<forall>j < length un. \<exists>\<rho> f b.
              xs ! (length (first_seen ks) + j) = PRef \<rho> \<and> length h \<le> \<rho> \<and>
              obj_at h' \<rho> = Some (PDict f) \<and>
              get_h h (un ! j) ''code_size'' (PStr []) = Inr b \<and> (''Size'', b) \<in> set f \<and>
              (\<forall>cell \<in> set f. if fst cell = ''Size'' then snd cell = b
                               else (\<forall>a. snd cell \<noteq> PRef a)))"
proof -
  from run_h_sim [OF ts kept_refl vb it] run
  have "\<exists>ls idx idx' rs.
          challan_lines (jview h challan) = Inr ls \<and> build_index [] ls = Inr idx \<and>
          match_stickers (idx, []) (map (jview h) svs)
            = Inr (idx', map (jview h) (unmatched_of h (map fst idx) svs)) \<and>
          map fst idx' = map fst idx \<and>
          unmatched_rows (map (jview h) (unmatched_of h (map fst idx) svs)) = Inr rs \<and>
          run_reconciliation (run_session h challan svs) = Inr (Report (map key_row idx' @ rs)) \<and>
          report_rel h h' v idx' rs (unmatched_of h (map fst idx) svs)"
    by simp
  then obtain ls and idx :: index and idx' rs where
    ls: "challan_lines (jview h challan) = Inr ls" and bi: "build_index [] ls = Inr idx"
    and keys: "map fst idx' = map fst idx"
    and rr: "report_rel h h' v idx' rs (unmatched_of h (map fst idx) svs)"
    by blast
  from bi obtain ks qs where ks: "map line_key ls = map Inr ks" and idx: "idx = index_of ks qs"
    unfolding build_index_iff by blast
  have fs: "map fst idx = first_seen ks" by (simp add: idx)
  define un where "un = unmatched_of h (first_seen ks) svs"
  have li: "length idx' = length (first_seen ks)"
    using keys fs by (metis length_map)
  let ?ps = "map (\<lambda>kc. (key_row kc, key_cells kc)) idx' @ zip rs (map (sticker_cells h) un)"
  from rr obtain r xs where v: "v = PRef r" and n: "length h \<le> r" and lr: "length rs = length un"
    and r: "obj_at h' r = Some (PList xs)"
    and rows: "list_all2 (row_rel h r h') xs ?ps"
    unfolding fs un_def [symmetric]
    by (auto simp: report_rel_def split: pval.splits option.splits pobj.splits)
  have lx: "length xs = length (first_seen ks) + length un"
    using list_all2_lengthD [OF rows] lr li by simp
  have svb: "\<forall>sv \<in> set un. val_below (length h) sv \<and> no_match (first_seen ks) (jview h sv)"
    using iter_h_below [OF ts it] by (auto simp: un_def unmatched_of_def)
  have row: "\<And>i. i < length xs \<Longrightarrow> \<exists>\<rho>. xs ! i = PRef \<rho> \<and> length h \<le> \<rho> \<and>
               obj_at h' \<rho> = Some (PDict (snd (?ps ! i)))"
  proof -
    fix i assume "i < length xs"
    with rows have "row_rel h r h' (xs ! i) (?ps ! i)" by (rule list_all2_nthD)
    then show "\<exists>\<rho>. xs ! i = PRef \<rho> \<and> length h \<le> \<rho> \<and> obj_at h' \<rho> = Some (PDict (snd (?ps ! i)))"
      by (auto simp: row_rel_def split: pval.splits)
  qed
  have krows: "\<forall>i < length (first_seen ks). \<exists>\<rho> f.
              xs ! i = PRef \<rho> \<and> length h \<le> \<rho> \<and> obj_at h' \<rho> = Some (PDict f) \<and>
              (\<forall>cell \<in> set f. \<forall>a. snd cell \<noteq> PRef a)"
  proof (intro allI impI)
    fix i assume i: "i < length (first_seen ks)"
    then have "i < length xs" using lx by simp
    from row [OF this] obtain \<rho> where
      a: "xs ! i = PRef \<rho>" "length h \<le> \<rho>" "obj_at h' \<rho> = Some (PDict (snd (?ps ! i)))" by blast
    have "snd (?ps ! i) = key_cells (idx' ! i)" using i li by (simp add: nth_append)
    with a key_cells_scalar
    show "\<exists>\<rho> f. xs ! i = PRef \<rho> \<and> length h \<le> \<rho> \<and> obj_at h' \<rho> = Some (PDict f) \<and>
              (\<forall>cell \<in> set f. \<forall>a. snd cell \<noteq> PRef a)" by metis
  qed
  have urows: "\<forall>j < length un. \<exists>\<rho> f b.
              xs ! (length (first_seen ks) + j) = PRef \<rho> \<and> length h \<le> \<rho> \<and>
              obj_at h' \<rho> = Some (PDict f) \<and>
              get_h h (un ! j) ''code_size'' (PStr []) = Inr b \<and> (''Size'', b) \<in> set f \<and>
              (\<forall>cell \<in> set f. if fst cell = ''Size'' then snd cell = b
                               else (\<forall>a. snd cell \<noteq> PRef a))"
  proof (intro allI impI)
    fix j assume j: "j < length un"
    then have "length (first_seen ks) + j < length xs" using lx by simp
    from row [OF this] obtain \<rho> where
      a: "xs ! (length (first_seen ks) + j) = PRef \<rho>" "length h \<le> \<rho>"
      "obj_at h' \<rho> = Some (PDict (snd (?ps ! (length (first_seen ks) + j))))" by blast
    have s: "snd (?ps ! (length (first_seen ks) + j)) = sticker_cells h (un ! j)"
      using j li lr by (simp add: nth_append)
    from j svb have "val_below (length h) (un ! j)" "no_match (first_seen ks) (jview h (un ! j))"
      by simp_all
    from no_match_cells [OF ts this] obtain a' b where
      g: "get_h h (un ! j) ''code_size'' (PStr []) = Inr b"
      and c: "sticker_cells h (un ! j) = unmatched_cells a' b" by blast
    have "(''Size'', b) \<in> set (unmatched_cells a' b)" by (rule unmatched_cells_size(1))
    moreover have "\<forall>cell \<in> set (unmatched_cells a' b).
                     if fst cell = ''Size'' then snd cell = b else (\<forall>a. snd cell \<noteq> PRef a)"
      using unmatched_cells_size(2) by blast
    ultimately show "\<exists>\<rho> f b.
              xs ! (length (first_seen ks) + j) = PRef \<rho> \<and> length h \<le> \<rho> \<and>
              obj_at h' \<rho> = Some (PDict f) \<and>
              get_h h (un ! j) ''code_size'' (PStr []) = Inr b \<and> (''Size'', b) \<in> set f \<and>
              (\<forall>cell \<in> set f. if fst cell = ''Size'' then snd cell = b
                               else (\<forall>a. snd cell \<noteq> PRef a))"
      using a g unfolding s c by blast
  qed
  from v n r ls ks lx krows urows show ?thesis unfolding un_def by blast
qed


lemma sharing_iff:
  assumes lx: "length xs = nk + length un"
    and krows: "\<forall>i < nk. \<exists>\<rho> f.
              xs ! i = PRef \<rho> \<and> length h \<le> \<rho> \<and> obj_at h' \<rho> = Some (PDict f) \<and>
              (\<forall>cell \<in> set f. \<forall>a. snd cell \<noteq> PRef a)"
    and urows: "\<forall>j < length un. \<exists>\<rho> f b.
              xs ! (nk + j) = PRef \<rho> \<and> length h \<le> \<rho> \<and>
              obj_at h' \<rho> = Some (PDict f) \<and>
              get_h h (un ! j) ''code_size'' (PStr []) = Inr b \<and> (''Size'', b) \<in> set f \<and>
              (\<forall>cell \<in> set f. if fst cell = ''Size'' then snd cell = b
                               else (\<forall>a. snd cell \<noteq> PRef a))"
  shows "(\<exists>x \<in> set xs. \<exists>\<rho> f cell a.
            x = PRef \<rho> \<and> obj_at h' \<rho> = Some (PDict f) \<and> cell \<in> set f \<and> snd cell = PRef a)
         \<longleftrightarrow> (\<exists>sv \<in> set un. \<exists>a. get_h h sv ''code_size'' (PStr []) = Inr (PRef a))"
proof
  assume "\<exists>x \<in> set xs. \<exists>\<rho> f cell a.
            x = PRef \<rho> \<and> obj_at h' \<rho> = Some (PDict f) \<and> cell \<in> set f \<and> snd cell = PRef a"
  then obtain x \<rho> f cell a where x: "x \<in> set xs" "x = PRef \<rho>"
    and o: "obj_at h' \<rho> = Some (PDict f)" and c: "cell \<in> set f" "snd cell = PRef a"
    by blast
  from x(1) obtain i where i: "i < length xs" "xs ! i = x" by (auto simp: in_set_conv_nth)
  show "\<exists>sv \<in> set un. \<exists>a. get_h h sv ''code_size'' (PStr []) = Inr (PRef a)"
  proof (cases "i < nk")
    case True
    with krows obtain \<rho>' f' where "xs ! i = PRef \<rho>'" "obj_at h' \<rho>' = Some (PDict f')"
      "\<forall>cell \<in> set f'. \<forall>a. snd cell \<noteq> PRef a" by blast
    with i(2) x(2) o c show ?thesis by auto
  next
    case False
    define j where "j = i - nk"
    have j: "j < length un" "nk + j = i" using False i(1) lx by (simp_all add: j_def)
    with urows obtain \<rho>' f' b where u: "xs ! i = PRef \<rho>'" "obj_at h' \<rho>' = Some (PDict f')"
      "get_h h (un ! j) ''code_size'' (PStr []) = Inr b"
      "\<forall>cell \<in> set f'. if fst cell = ''Size'' then snd cell = b else (\<forall>a. snd cell \<noteq> PRef a)"
      by metis
    from u(1,2) i(2) x(2) o have "f' = f" by simp
    with u(4) c have "b = PRef a" by (metis (full_types))
    with u(3) j(1) show ?thesis by (metis nth_mem)
  qed
next
  assume "\<exists>sv \<in> set un. \<exists>a. get_h h sv ''code_size'' (PStr []) = Inr (PRef a)"
  then obtain sv a where sv: "sv \<in> set un" and g: "get_h h sv ''code_size'' (PStr []) = Inr (PRef a)"
    by blast
  from sv obtain j where j: "j < length un" "un ! j = sv" by (auto simp: in_set_conv_nth)
  with urows obtain \<rho> f b where u: "xs ! (nk + j) = PRef \<rho>" "obj_at h' \<rho> = Some (PDict f)"
    "get_h h (un ! j) ''code_size'' (PStr []) = Inr b" "(''Size'', b) \<in> set f"
    by blast
  from u(3) g j(2) have b: "b = PRef a" by simp
  have "nk + j < length xs" using j(1) lx by simp
  then have "xs ! (nk + j) \<in> set xs" by (rule nth_mem)
  with u b show "\<exists>x \<in> set xs. \<exists>\<rho> f cell a.
            x = PRef \<rho> \<and> obj_at h' \<rho> = Some (PDict f) \<and> cell \<in> set f \<and> snd cell = PRef a"
    by (metis snd_conv)
qed

lemma set_unmatched_of: "set (unmatched_of h ks svs) \<subseteq> set svs"
  by (simp add: unmatched_of_def)

text \<open>
  C7, as the code has it. Whatever the outcome of a run, the store after it is the store
  before it followed by new objects: no object that existed before the call, the challan
  record, the sticker list and the records inside them among them, is changed. On a
  store without cycles, which is what \<^verbatim>\<open>json.loads\<close> builds, the report of a
  successful run is a new list of new rows: first one row for each key, whose
  cells are all strings and integers, and then one row for each unmatched sticker, in
  scan order, whose cells are strings and integers except the Size cell, which is the
  very value \<^verbatim>\<open>sticker.get('code_size', '')\<close> returns for that sticker. So a row of the
  report refers to another object exactly when the \<^verbatim>\<open>code_size\<close> of an unmatched sticker
  is a list or a record, and that object is then shared with the input.
\<close>

theorem run_keeps_inputs:
  "(\<exists>new. fst (run_h h challan stickers) = h @ new)
   \<and> (tree_store h \<and> val_below (length h) challan \<and> iter_h h stickers = Inr svs \<and>
      run_h h challan stickers = (h', Inr (Some v)) \<longrightarrow>
        (\<exists>r xs ls ks un.
           v = PRef r \<and> length h \<le> r \<and> obj_at h' r = Some (PList xs) \<and>
           challan_lines (jview h challan) = Inr ls \<and> map line_key ls = map Inr ks \<and>
           un = unmatched_of h (first_seen ks) svs \<and>
           length xs = length (first_seen ks) + length un \<and>
           (\<forall>i < length (first_seen ks). \<exists>\<rho> f.
              xs ! i = PRef \<rho> \<and> length h \<le> \<rho> \<and> obj_at h' \<rho> = Some (PDict f) \<and>
              (\<forall>cell \<in> set f. \<forall>a. snd cell \<noteq> PRef a)) \<and>
           (\<forall>j < length un. \<exists>\<rho> f b.
              xs ! (length (first_seen ks) + j) = PRef \<rho> \<and> length h \<le> \<rho> \<and>
              obj_at h' \<rho> = Some (PDict f) \<and>
              get_h h (un ! j) ''code_size'' (PStr []) = Inr b \<and> (''Size'', b) \<in> set f \<and>
              (\<forall>cell \<in> set f. if fst cell = ''Size'' then snd cell = b
                               else (\<forall>a. snd cell \<noteq> PRef a))) \<and>
           ((\<exists>x \<in> set xs. \<exists>\<rho> f cell a.
               x = PRef \<rho> \<and> obj_at h' \<rho> = Some (PDict f) \<and> cell \<in> set f \<and> snd cell = PRef a)
            \<longleftrightarrow> (\<exists>sv \<in> set un. \<exists>a. get_h h sv ''code_size'' (PStr []) = Inr (PRef a)))))"
proof (intro conjI impI)
  show "\<exists>new. fst (run_h h challan stickers) = h @ new" by (rule run_h_extends)
next
  assume a: "tree_store h \<and> val_below (length h) challan \<and> iter_h h stickers = Inr svs \<and>
      run_h h challan stickers = (h', Inr (Some v))"
  then have ts: "tree_store h" and vb: "val_below (length h) challan"
    and it: "iter_h h stickers = Inr svs"
    and run: "run_h h challan stickers = (h', Inr (Some v))" by blast+
  from run_h_report [OF ts vb it run] obtain r xs ls ks un where
    1: "v = PRef r" "length h \<le> r" "obj_at h' r = Some (PList xs)"
       "challan_lines (jview h challan) = Inr ls" "map line_key ls = map Inr ks"
       "un = unmatched_of h (first_seen ks) svs"
    and lx: "length xs = length (first_seen ks) + length un"
    and krows: "\<forall>i < length (first_seen ks). \<exists>\<rho> f.
              xs ! i = PRef \<rho> \<and> length h \<le> \<rho> \<and> obj_at h' \<rho> = Some (PDict f) \<and>
              (\<forall>cell \<in> set f. \<forall>a. snd cell \<noteq> PRef a)"
    and urows: "\<forall>j < length un. \<exists>\<rho> f b.
              xs ! (length (first_seen ks) + j) = PRef \<rho> \<and> length h \<le> \<rho> \<and>
              obj_at h' \<rho> = Some (PDict f) \<and>
              get_h h (un ! j) ''code_size'' (PStr []) = Inr b \<and> (''Size'', b) \<in> set f \<and>
              (\<forall>cell \<in> set f. if fst cell = ''Size'' then snd cell = b
                               else (\<forall>a. snd cell \<noteq> PRef a))"
    by blast
  note sh = sharing_iff [OF lx krows urows]
  have c: "v = PRef r \<and> length h \<le> r \<and> obj_at h' r = Some (PList xs) \<and>
           challan_lines (jview h challan) = Inr ls \<and> map line_key ls = map Inr ks \<and>
           un = unmatched_of h (first_seen ks) svs \<and>
           length xs = length (first_seen ks) + length un \<and>
           (\<forall>i < length (first_seen ks). \<exists>\<rho> f.
              xs ! i = PRef \<rho> \<and> length h \<le> \<rho> \<and> obj_at h' \<rho> = Some (PDict f) \<and>
              (\<forall>cell \<in> set f. \<forall>a. snd cell \<noteq> PRef a)) \<and>
           (\<forall>j < length un. \<exists>\<rho> f b.
              xs ! (length (first_seen ks) + j) = PRef \<rho> \<and> length h \<le> \<rho> \<and>
              obj_at h' \<rho> = Some (PDict f) \<and>
              get_h h (un ! j) ''code_size'' (PStr []) = Inr b \<and> (''Size'', b) \<in> set f \<and>
              (\<forall>cell \<in> set f. if fst cell = ''Size'' then snd cell = b
                               else (\<forall>a. snd cell \<noteq> PRef a))) \<and>
           ((\<exists>x \<in> set xs. \<exists>\<rho> f cell a.
               x = PRef \<rho> \<and> obj_at h' \<rho> = Some (PDict f) \<and> cell \<in> set f \<and> snd cell = PRef a)
            \<longleftrightarrow> (\<exists>sv \<in> set un. \<exists>a. get_h h sv ''code_size'' (PStr []) = Inr (PRef a)))"
    by ((rule conjI, fact)+, fact)
  show "\<exists>r xs ls ks un.
           v = PRef r \<and> length h \<le> r \<and> obj_at h' r = Some (PList xs) \<and>
           challan_lines (jview h challan) = Inr ls \<and> map line_key ls = map Inr ks \<and>
           un = unmatched_of h (first_seen ks) svs \<and>
           length xs = length (first_seen ks) + length un \<and>
           (\<forall>i < length (first_seen ks). \<exists>\<rho> f.
              xs ! i = PRef \<rho> \<and> length h \<le> \<rho> \<and> obj_at h' \<rho> = Some (PDict f) \<and>
              (\<forall>cell \<in> set f. \<forall>a. snd cell \<noteq> PRef a)) \<and>
           (\<forall>j < length un. \<exists>\<rho> f b.
              xs ! (length (first_seen ks) + j) = PRef \<rho> \<and> length h \<le> \<rho> \<and>
              obj_at h' \<rho> = Some (PDict f) \<and>
              get_h h (un ! j) ''code_size'' (PStr []) = Inr b \<and> (''Size'', b) \<in> set f \<and>
              (\<forall>cell \<in> set f. if fst cell = ''Size'' then snd cell = b
                               else (\<forall>a. snd cell \<noteq> PRef a))) \<and>
           ((\<exists>x \<in> set xs. \<exists>\<rho> f cell a.
               x = PRef \<rho> \<and> obj_at h' \<rho> = Some (PDict f) \<and> cell \<in> set f \<and> snd cell = PRef a)
            \<longleftrightarrow> (\<exists>sv \<in> set un. \<exists>a. get_h h sv ''code_size'' (PStr []) = Inr (PRef a)))"
    by (intro exI) (rule c)
qed

theorem run_keeps_inputs_witness:
  "tree_store scalar_sizes_heap \<and> val_below (length scalar_sizes_heap) (PRef 3)
   \<and> iter_h scalar_sizes_heap (PRef 6) = Inr [PRef 4, PRef 5]
   \<and> snd (run_h scalar_sizes_heap (PRef 3) (PRef 6)) = Inr (Some (PRef 12))
   \<and> (\<exists>new. fst (run_h scalar_sizes_heap (PRef 3) (PRef 6)) = scalar_sizes_heap @ new)
   \<and> (\<exists>xs. obj_at (fst (run_h scalar_sizes_heap (PRef 3) (PRef 6))) 12 = Some (PList xs) \<and>
         \<not> (\<exists>x \<in> set xs. \<exists>\<rho> f cell a.
               x = PRef \<rho> \<and>
               obj_at (fst (run_h scalar_sizes_heap (PRef 3) (PRef 6))) \<rho> = Some (PDict f) \<and>
               cell \<in> set f \<and> snd cell = PRef a))"
proof -
  let ?h = scalar_sizes_heap
  let ?h' = "fst (run_h ?h (PRef 3) (PRef 6))"
  have t: "tree_store ?h" by code_simp
  have v: "val_below (length ?h) (PRef 3)" by code_simp
  have r: "snd (run_h ?h (PRef 3) (PRef 6)) = Inr (Some (PRef 12))"
    by code_simp
  then have run: "run_h ?h (PRef 3) (PRef 6) = (?h', Inr (Some (PRef 12)))"
    by (simp add: prod_eq_iff)
  have it: "iter_h ?h (PRef 6) = Inr [PRef 4, PRef 5]"
    by code_simp
  have g: "get_h ?h (PRef 4) ''code_size'' (PStr []) = Inr (PStr '' m '')"
    "get_h ?h (PRef 5) ''code_size'' (PStr []) = Inr (PStr ''S'')"
    by code_simp+
  note th = run_keeps_inputs [of ?h "PRef 3" "PRef 6" "[PRef 4, PRef 5]" ?h' "PRef 12"]
  from th have ext: "\<exists>new. ?h' = ?h @ new" by blast
  have hyp: "tree_store ?h \<and> val_below (length ?h) (PRef 3) \<and>
             iter_h ?h (PRef 6) = Inr [PRef 4, PRef 5] \<and>
             run_h ?h (PRef 3) (PRef 6) = (?h', Inr (Some (PRef 12)))"
    using t v it run by (intro conjI)
  from th [THEN conjunct2, THEN mp, OF hyp] obtain r xs ls ks un where
    c: "PRef 12 = PRef r \<and> length ?h \<le> r \<and> obj_at ?h' r = Some (PList xs) \<and>
           challan_lines (jview ?h (PRef 3)) = Inr ls \<and> map line_key ls = map Inr ks \<and>
           un = unmatched_of ?h (first_seen ks) [PRef 4, PRef 5] \<and>
           length xs = length (first_seen ks) + length un \<and>
           (\<forall>i < length (first_seen ks). \<exists>\<rho> f.
              xs ! i = PRef \<rho> \<and> length ?h \<le> \<rho> \<and> obj_at ?h' \<rho> = Some (PDict f) \<and>
              (\<forall>cell \<in> set f. \<forall>a. snd cell \<noteq> PRef a)) \<and>
           (\<forall>j < length un. \<exists>\<rho> f b.
              xs ! (length (first_seen ks) + j) = PRef \<rho> \<and> length ?h \<le> \<rho> \<and>
              obj_at ?h' \<rho> = Some (PDict f) \<and>
              get_h ?h (un ! j) ''code_size'' (PStr []) = Inr b \<and> (''Size'', b) \<in> set f \<and>
              (\<forall>cell \<in> set f. if fst cell = ''Size'' then snd cell = b
                               else (\<forall>a. snd cell \<noteq> PRef a))) \<and>
           ((\<exists>x \<in> set xs. \<exists>\<rho> f cell a.
               x = PRef \<rho> \<and> obj_at ?h' \<rho> = Some (PDict f) \<and> cell \<in> set f \<and> snd cell = PRef a)
            \<longleftrightarrow> (\<exists>sv \<in> set un. \<exists>a. get_h ?h sv ''code_size'' (PStr []) = Inr (PRef a)))"
    by (elim exE) (rule that)
  note rr = c [THEN conjunct1] c [THEN conjunct2, THEN conjunct2, THEN conjunct1]
  note un = c [THEN conjunct2, THEN conjunct2, THEN conjunct2, THEN conjunct2, THEN conjunct2,
      THEN conjunct1]
  note sh = c [THEN conjunct2, THEN conjunct2, THEN conjunct2, THEN conjunct2, THEN conjunct2,
      THEN conjunct2, THEN conjunct2, THEN conjunct2, THEN conjunct2]
  have "set un \<subseteq> {PRef 4, PRef 5}" using set_unmatched_of [of ?h "first_seen ks" "[PRef 4, PRef 5]"]
    unfolding un by simp
  then have "\<not> (\<exists>sv \<in> set un. \<exists>a. get_h ?h sv ''code_size'' (PStr []) = Inr (PRef a))"
    using g by auto
  with sh have "\<not> (\<exists>x \<in> set xs. \<exists>\<rho> f cell a.
               x = PRef \<rho> \<and> obj_at ?h' \<rho> = Some (PDict f) \<and> cell \<in> set f \<and> snd cell = PRef a)"
    by blast
  with rr have "\<exists>xs. obj_at ?h' 12 = Some (PList xs) \<and>
         \<not> (\<exists>x \<in> set xs. \<exists>\<rho> f cell a.
               x = PRef \<rho> \<and> obj_at ?h' \<rho> = Some (PDict f) \<and> cell \<in> set f \<and> snd cell = PRef a)"
    by auto
  with t v it r ext show ?thesis by blast
qed

theorem report_shares_list:
  "snd (run_h list_size_heap (PRef 2) (PRef 5)) = Inr (Some (PRef 10))
   \<and> obj_at (fst (run_h list_size_heap (PRef 2) (PRef 5))) 10 = Some (PList [PRef 11, PRef 12])
   \<and> get_h (fst (run_h list_size_heap (PRef 2) (PRef 5))) (PRef 12) ''Size'' PNone = Inr (PRef 3)
   \<and> iter_h list_size_heap (PRef 5) = Inr [PRef 4]
   \<and> get_h list_size_heap (PRef 4) ''code_size'' (PStr []) = Inr (PRef 3)
   \<and> obj_at list_size_heap 3 = Some (PList [PStr ''S''])"
  by code_simp

lemma refines_agree:
  assumes a: "case ra of
           Inl x \<Rightarrow> p = Inl x
         | Inr None \<Rightarrow> p = Inr NoChallan
         | Inr (Some v) \<Rightarrow> (\<exists>rows. p = Inr (Report rows) \<and> A v = JArr (map row_json rows))"
    and b: "case rb of
           Inl x \<Rightarrow> p = Inl x
         | Inr None \<Rightarrow> p = Inr NoChallan
         | Inr (Some v) \<Rightarrow> (\<exists>rows. p = Inr (Report rows) \<and> B v = JArr (map row_json rows))"
  shows "case ra of
           Inl x \<Rightarrow> rb = Inl x
         | Inr None \<Rightarrow> rb = Inr None
         | Inr (Some va) \<Rightarrow>
             (\<exists>vb rows. rb = Inr (Some vb) \<and> p = Inr (Report rows) \<and>
                A va = JArr (map row_json rows) \<and> B vb = JArr (map row_json rows))"
proof (cases ra)
  case (Inl x)
  with a have "p = Inl x" by simp
  with b have "rb = Inl x" by (auto split: sum.splits option.splits)
  with Inl show ?thesis by simp
next
  case (Inr oa)
  show ?thesis
  proof (cases oa)
    case None
    with a Inr have "p = Inr NoChallan" by simp
    with b have "rb = Inr None" by (auto split: sum.splits option.splits)
    with Inr None show ?thesis by simp
  next
    case (Some va)
    with a Inr obtain rows where r: "p = Inr (Report rows)" "A va = JArr (map row_json rows)"
      by auto
    with b obtain vb where "rb = Inr (Some vb)" "B vb = JArr (map row_json rows)"
      by (auto split: sum.splits option.splits)
    with r show ?thesis unfolding Inr Some by auto
  qed
qed

text \<open>
  C8. Two runs on the same inputs have the same outcome. When the function is run
  again on the store the first run left, with the same challan and the same stickers,
  it raises the same exception, or ends with the warning again, or returns a report
  with the same rows in the same order; the second report is a new list. The same holds
  for runs on two stores whose challans and stickers stand for the same values. The
  rows of the reports come in one fixed order: the rows of the keys, in the first-seen
  order of the keys among the challan's lines, and then the rows of the unmatched
  stickers, in scan order.
\<close>

theorem run_deterministic:
  "(tree_store h \<and> val_below (length h) challan \<and> iter_h h stickers = Inr svs \<and>
    run_h h challan stickers = (h1, res1) \<and> run_h h1 challan stickers = (h2, res2) \<longrightarrow>
      (case res1 of
         Inl x \<Rightarrow> res2 = Inl x
       | Inr None \<Rightarrow> res2 = Inr None
       | Inr (Some v1) \<Rightarrow>
           (\<exists>v2 rows ls ks qs sks rs.
              res2 = Inr (Some v2) \<and>
              jview h1 v1 = JArr (map row_json rows) \<and> jview h2 v2 = JArr (map row_json rows) \<and>
              challan_lines (jview h challan) = Inr ls \<and>
              map line_key ls = map Inr ks \<and> map line_qty ls = map Inr qs \<and>
              map sticker_key (map (jview h) svs) = map Inr sks \<and>
              map unmatched_row (filter (no_match (first_seen ks)) (map (jview h) svs)) = map Inr rs \<and>
              rows = map key_row (credit sks (index_of ks qs)) @ rs)))
   \<and> (tree_store ha \<and> val_below (length ha) ca \<and> iter_h ha sa = Inr svsa \<and>
       tree_store hb \<and> val_below (length hb) cb \<and> iter_h hb sb = Inr svsb \<and>
       jview ha ca = jview hb cb \<and> map (jview ha) svsa = map (jview hb) svsb \<longrightarrow>
      (case snd (run_h ha ca sa) of
         Inl x \<Rightarrow> snd (run_h hb cb sb) = Inl x
       | Inr None \<Rightarrow> snd (run_h hb cb sb) = Inr None
       | Inr (Some va) \<Rightarrow>
           (\<exists>vb. snd (run_h hb cb sb) = Inr (Some vb) \<and>
                 jview (fst (run_h hb cb sb)) vb = jview (fst (run_h ha ca sa)) va)))"
proof (intro conjI impI)
  assume a: "tree_store h \<and> val_below (length h) challan \<and> iter_h h stickers = Inr svs \<and>
    run_h h challan stickers = (h1, res1) \<and> run_h h1 challan stickers = (h2, res2)"
  let ?p = "run_reconciliation (run_session h challan svs)"
  from a have ts: "tree_store h" and vb: "val_below (length h) challan"
    and it: "iter_h h stickers = Inr svs"
    and r1: "run_h h challan stickers = (h1, res1)" and r2: "run_h h1 challan stickers = (h2, res2)"
    by blast+
  have k: "kept (length h) h h1" using run_h_kept [of h challan stickers] r1 by simp
  have 1: "case res1 of
           Inl x \<Rightarrow> ?p = Inl x
         | Inr None \<Rightarrow> ?p = Inr NoChallan
         | Inr (Some v) \<Rightarrow> (\<exists>rows. ?p = Inr (Report rows) \<and> jview h1 v = JArr (map row_json rows))"
    using run_h_refines [OF ts vb it] unfolding r1 fst_conv snd_conv .
  have 2: "case res2 of
           Inl x \<Rightarrow> ?p = Inl x
         | Inr None \<Rightarrow> ?p = Inr NoChallan
         | Inr (Some v) \<Rightarrow> (\<exists>rows. ?p = Inr (Report rows) \<and> jview h2 v = JArr (map row_json rows))"
    using run_h_refines_kept [OF ts k vb it] unfolding r2 fst_conv snd_conv .
  note ag = refines_agree [OF 1 2]
  show "case res1 of
         Inl x \<Rightarrow> res2 = Inl x
       | Inr None \<Rightarrow> res2 = Inr None
       | Inr (Some v1) \<Rightarrow>
           (\<exists>v2 rows ls ks qs sks rs.
              res2 = Inr (Some v2) \<and>
              jview h1 v1 = JArr (map row_json rows) \<and> jview h2 v2 = JArr (map row_json rows) \<and>
              challan_lines (jview h challan) = Inr ls \<and>
              map line_key ls = map Inr ks \<and> map line_qty ls = map Inr qs \<and>
              map sticker_key (map (jview h) svs) = map Inr sks \<and>
              map unmatched_row (filter (no_match (first_seen ks)) (map (jview h) svs)) = map Inr rs \<and>
              rows = map key_row (credit sks (index_of ks qs)) @ rs)"
  proof (cases res1)
    case (Inl x)
    with ag show ?thesis by simp
  next
    case (Inr o1)
    show ?thesis
    proof (cases o1)
      case None
      with ag Inr show ?thesis by simp
    next
      case (Some v1)
      with ag Inr obtain v2 rows where v2: "res2 = Inr (Some v2)" and p: "?p = Inr (Report rows)"
        and j1: "jview h1 v1 = JArr (map row_json rows)"
        and j2: "jview h2 v2 = JArr (map row_json rows)"
        by auto
      from run_report [OF p] obtain ls ks qs sks rs where
        "challan_lines (jview h challan) = Inr ls"
        "map line_key ls = map Inr ks" "map line_qty ls = map Inr qs"
        "map sticker_key (map (jview h) svs) = map Inr sks"
        "map unmatched_row (filter (no_match (first_seen ks)) (map (jview h) svs)) = map Inr rs"
        "rows = map key_row (credit sks (index_of ks qs)) @ rs"
        unfolding run_session_def by auto
      with v2 j1 j2 show ?thesis unfolding Inr Some by (simp only: sum.case option.case) blast
    qed
  qed
next
  assume a: "tree_store ha \<and> val_below (length ha) ca \<and> iter_h ha sa = Inr svsa \<and>
       tree_store hb \<and> val_below (length hb) cb \<and> iter_h hb sb = Inr svsb \<and>
       jview ha ca = jview hb cb \<and> map (jview ha) svsa = map (jview hb) svsb"
  let ?p = "run_reconciliation (run_session ha ca svsa)"
  from a have s: "run_session hb cb svsb = run_session ha ca svsa"
    by (simp add: run_session_def)
  from a have 1: "case snd (run_h ha ca sa) of
           Inl x \<Rightarrow> ?p = Inl x
         | Inr None \<Rightarrow> ?p = Inr NoChallan
         | Inr (Some v) \<Rightarrow> (\<exists>rows. ?p = Inr (Report rows) \<and>
              jview (fst (run_h ha ca sa)) v = JArr (map row_json rows))"
    using run_h_refines [of ha ca sa svsa] by blast
  from a have 2: "case snd (run_h hb cb sb) of
           Inl x \<Rightarrow> ?p = Inl x
         | Inr None \<Rightarrow> ?p = Inr NoChallan
         | Inr (Some v) \<Rightarrow> (\<exists>rows. ?p = Inr (Report rows) \<and>
              jview (fst (run_h hb cb sb)) v = JArr (map row_json rows))"
    using run_h_refines [of hb cb sb svsb] unfolding s by blast
  note ag = refines_agree [OF 1 2]
  show "case snd (run_h ha ca sa) of
         Inl x \<Rightarrow> snd (run_h hb cb sb) = Inl x
       | Inr None \<Rightarrow> snd (run_h hb cb sb) = Inr None
       | Inr (Some va) \<Rightarrow>
           (\<exists>vb. snd (run_h hb cb sb) = Inr (Some vb) \<and>
                 jview (fst (run_h hb cb sb)) vb = jview (fst (run_h ha ca sa)) va)"
  proof (cases "snd (run_h ha ca sa)")
    case (Inl x)
    with ag show ?thesis by simp
  next
    case (Inr o1)
    show ?thesis
    proof (cases o1)
      case None
      with ag Inr show ?thesis by simp
    next
      case (Some va)
      with ag Inr show ?thesis by auto
    qed
  qed
qed


theorem run_deterministic_witness:
  "tree_store scalar_sizes_heap \<and> val_below (length scalar_sizes_heap) (PRef 3)
   \<and> iter_h scalar_sizes_heap (PRef 6) = Inr [PRef 4, PRef 5]
   \<and> snd (run_h scalar_sizes_heap (PRef 3) (PRef 6)) = Inr (Some (PRef 12))
   \<and> snd (run_h (fst (run_h scalar_sizes_heap (PRef 3) (PRef 6))) (PRef 3) (PRef 6))
        = Inr (Some (PRef 21))
   \<and> jview (fst (run_h (fst (run_h scalar_sizes_heap (PRef 3) (PRef 6))) (PRef 3) (PRef 6))) (PRef 21)
        = jview (fst (run_h scalar_sizes_heap (PRef 3) (PRef 6))) (PRef 12)
   \<and> tree_store (scalar_sizes_heap @ [PList []])
   \<and> jview scalar_sizes_heap (PRef 3) = jview (scalar_sizes_heap @ [PList []]) (PRef 3)
   \<and> snd (run_h (scalar_sizes_heap @ [PList []]) (PRef 3) (PRef 6)) = Inr (Some (PRef 13))
   \<and> jview (fst (run_h (scalar_sizes_heap @ [PList []]) (PRef 3) (PRef 6))) (PRef 13)
        = jview (fst (run_h scalar_sizes_heap (PRef 3) (PRef 6))) (PRef 12)"
proof -
  let ?h = scalar_sizes_heap
  let ?h1 = "fst (run_h ?h (PRef 3) (PRef 6))"
  let ?h2 = "fst (run_h ?h1 (PRef 3) (PRef 6))"
  let ?hb = "scalar_sizes_heap @ [PList []]"
  have t: "tree_store ?h" by code_simp
  have v: "val_below (length ?h) (PRef 3)" by code_simp
  have i: "iter_h ?h (PRef 6) = Inr [PRef 4, PRef 5]" by code_simp
  have s1: "snd (run_h ?h (PRef 3) (PRef 6)) = Inr (Some (PRef 12))" by code_simp
  have s2: "snd (run_h ?h1 (PRef 3) (PRef 6)) = Inr (Some (PRef 21))" by code_simp
  have r1: "run_h ?h (PRef 3) (PRef 6) = (?h1, Inr (Some (PRef 12)))"
    using s1 by (simp add: prod_eq_iff)
  have r2: "run_h ?h1 (PRef 3) (PRef 6) = (?h2, Inr (Some (PRef 21)))"
    using s2 by (simp add: prod_eq_iff)
  from run_deterministic [of ?h "PRef 3" "PRef 6" "[PRef 4, PRef 5]" ?h1 "Inr (Some (PRef 12))"
      ?h2 "Inr (Some (PRef 21))"] t v i r1 r2
  have "\<exists>v2 rows. Inr (Some (PRef 21)) = (Inr (Some v2) :: py_error + pval option) \<and>
          jview ?h1 (PRef 12) = JArr (map row_json rows) \<and> jview ?h2 v2 = JArr (map row_json rows)"
    by (simp only: sum.case option.case) blast
  then have same: "jview ?h2 (PRef 21) = jview ?h1 (PRef 12)" by auto
  have tb: "tree_store ?hb" by code_simp
  have vb: "val_below (length ?hb) (PRef 3)" by code_simp
  have ib: "iter_h ?hb (PRef 6) = Inr [PRef 4, PRef 5]" by code_simp
  have jc: "jview ?h (PRef 3) = jview ?hb (PRef 3)" by code_simp
  have js: "map (jview ?h) [PRef 4, PRef 5] = map (jview ?hb) [PRef 4, PRef 5]" by code_simp
  have sb: "snd (run_h ?hb (PRef 3) (PRef 6)) = Inr (Some (PRef 13))" by code_simp
  from run_deterministic [where ha = ?h and ca = "PRef 3" and sa = "PRef 6"
      and svsa = "[PRef 4, PRef 5]" and hb = ?hb and cb = "PRef 3" and sb = "PRef 6"
      and svsb = "[PRef 4, PRef 5]"] t v i tb vb ib jc js
  have "case snd (run_h ?h (PRef 3) (PRef 6)) of
         Inl x \<Rightarrow> snd (run_h ?hb (PRef 3) (PRef 6)) = Inl x
       | Inr None \<Rightarrow> snd (run_h ?hb (PRef 3) (PRef 6)) = Inr None
       | Inr (Some va) \<Rightarrow>
           (\<exists>vb. snd (run_h ?hb (PRef 3) (PRef 6)) = Inr (Some vb) \<and>
                 jview (fst (run_h ?hb (PRef 3) (PRef 6))) vb = jview ?h1 va)"
    by blast
  then have sameb: "jview (fst (run_h ?hb (PRef 3) (PRef 6))) (PRef 13) = jview ?h1 (PRef 12)"
    unfolding s1 sb by simp
  from t v i s1 s2 same tb jc sb sameb show ?thesis by blast
qed

end
